theory Spec2Isabelle
  imports Main "HOL-Library.Sublist"
begin

section \<open>The data navigator of yqlib (pkg/yqlib/data\_navigator.go)\<close>

text \<open>
  The navigator walks a tree of \<^verbatim>\<open>*yaml.Node\<close> values along a path of string
  segments and calls a visitor on every node the path addresses. The nodes are
  mutable objects reached through pointers, so the model keeps an explicit store:
  a heap is the list of all nodes allocated so far, a pointer is an index into it,
  and \<^verbatim>\<open>&yaml.Node{...}\<close> appends a node to the heap and yields its index.
  A pointer that is not below the length of the heap plays the part of
  \<^verbatim>\<open>nil\<close>: reading through it panics.

  A slice of node pointers (\<^verbatim>\<open>Content\<close>) is modelled by the list of its
  elements. The one place where the source keeps several slice headers over one
  backing array and writes through one of them while reading through another is the
  mapping branch of \<^verbatim>\<open>Delete\<close>; there the backing array is a component
  of the state of the loop. A \<^verbatim>\<open>range\<close> loop runs over the elements the slice
  had when the loop started. This is what the Go program does as long as the
  \<^verbatim>\<open>Content\<close> slices of different nodes do not share a backing array and no
  node is reached again from below itself while one of its loops runs; the model
  does not follow a backing array that two nodes share. Calls to the logger are left
  out.

  \<^verbatim>\<open>strconv.ParseInt\<close>, \<^verbatim>\<open>strings.TrimSuffix\<close> and \<^verbatim>\<open>strings.HasPrefix\<close>
  belong to the Go library and \<^verbatim>\<open>yaml.Node\<close> to gopkg.in/yaml.v3; they are
  modelled after their documentation.
\<close>

subsection \<open>Nodes, errors, panics\<close>

type_synonym addr = nat

text \<open>\<^verbatim>\<open>yaml.Node\<close> of gopkg.in/yaml.v3, with \<^verbatim>\<open>Kind\<close> and \<^verbatim>\<open>Style\<close> as numbers.\<close>

record node =
  Kind :: nat
  Style :: nat
  Tag :: string
  Value :: string
  Anchor :: string
  Alias :: "addr option"
  Content :: "addr list"
  HeadComment :: string
  LineComment :: string
  FootComment :: string
  Line :: int
  Column :: int

text \<open>The kinds of yaml.v3: \<^verbatim>\<open>DocumentNode Kind = 1 << iota\<close> and so on; 0 is no kind.\<close>

abbreviation (input) DocumentNode :: nat where "DocumentNode \<equiv> 1"
abbreviation (input) SequenceNode :: nat where "SequenceNode \<equiv> 2"
abbreviation (input) MappingNode :: nat where "MappingNode \<equiv> 4"
abbreviation (input) ScalarNode :: nat where "ScalarNode \<equiv> 8"
abbreviation (input) AliasNode :: nat where "AliasNode \<equiv> 16"

text \<open>The zero value \<^verbatim>\<open>yaml.Node{}\<close>.\<close>

definition zeroNode :: node where
  "zeroNode = \<lparr>Kind = 0, Style = 0, Tag = [], Value = [], Anchor = [], Alias = None,
     Content = [], HeadComment = [], LineComment = [], FootComment = [],
     Line = 0, Column = 0\<rparr>"

datatype strconv_err = ErrSyntax | ErrRange

text \<open>The only error value the navigator returns is the \<^verbatim>\<open>*strconv.NumError\<close>
  of a failed \<^verbatim>\<open>ParseInt\<close>; it carries the offending string.\<close>

datatype error = NumError string strconv_err

datatype panic = IndexOutOfRange | SliceBoundsOutOfRange | NilDereference

text \<open>What a Go call does: it returns a value or it panics.\<close>

datatype 'a go = Return 'a | Panics panic

type_synonym heap = "node list"

definition load :: "heap \<Rightarrow> addr \<Rightarrow> node option" where
  "load h p = (if p < length h then Some (h ! p) else None)"

subsection \<open>Library functions: strconv.ParseInt, strings.TrimSuffix, strings.HasPrefix\<close>

definition isDigit :: "char \<Rightarrow> bool" where
  "isDigit c = (48 \<le> (of_char c :: int) \<and> (of_char c :: int) \<le> 57)"

text \<open>The digit loop of \<^verbatim>\<open>strconv.ParseUint(s, 10, 64)\<close>, with the uint64 \<open>n\<close> as an
  integer and the overflow tests written out: a character that is no decimal digit
  is a syntax error, a value beyond \<open>2 ^ 64 - 1\<close> a range error.\<close>

fun ParseUint_loop :: "string \<Rightarrow> int \<Rightarrow> strconv_err + int" where
  "ParseUint_loop [] n = Inr n"
| "ParseUint_loop (c # cs) n =
     (if \<not> isDigit c then Inl ErrSyntax
      else if n \<ge> (2 ^ 64 - 1) div 10 + 1 then Inl ErrRange
      else if n * 10 + (of_char c - 48) > 2 ^ 64 - 1 then Inl ErrRange
      else ParseUint_loop cs (n * 10 + (of_char c - 48)))"

definition ParseUint :: "string \<Rightarrow> strconv_err + int" where
  "ParseUint s = (if s = [] then Inl ErrSyntax else ParseUint_loop s 0)"

text \<open>\<^verbatim>\<open>strconv.ParseInt(s, 10, 64)\<close>: an optional sign, then \<^verbatim>\<open>ParseUint\<close>,
  then the check against the range of int64.\<close>

definition ParseInt :: "string \<Rightarrow> error + int" where
  "ParseInt s =
     (if s = [] then Inl (NumError s ErrSyntax)
      else
        let neg = (hd s = CHR ''-'');
            s1 = (if hd s = CHR ''+'' \<or> hd s = CHR ''-'' then tl s else s)
        in case ParseUint s1 of
             Inl e \<Rightarrow> Inl (NumError s e)
           | Inr un \<Rightarrow>
               if \<not> neg \<and> un \<ge> 2 ^ 63 then Inl (NumError s ErrRange)
               else if neg \<and> un > 2 ^ 63 then Inl (NumError s ErrRange)
               else Inr (if neg then - un else un))"

definition HasSuffix :: "string \<Rightarrow> string \<Rightarrow> bool" where
  "HasSuffix s suf = (length s \<ge> length suf \<and> drop (length s - length suf) s = suf)"

definition TrimSuffix :: "string \<Rightarrow> string \<Rightarrow> string" where
  "TrimSuffix s suf = (if HasSuffix s suf then take (length s - length suf) s else s)"

definition HasPrefix :: "string \<Rightarrow> string \<Rightarrow> bool" where
  "HasPrefix s pre = (length s \<ge> length pre \<and> take (length pre) s = pre)"

subsection \<open>matchesKey, guessKind, getOrReplace\<close>

definition matchesKey :: "string \<Rightarrow> string \<Rightarrow> bool" where
  "matchesKey key actual =
     (let prefixMatch = TrimSuffix key ''*''
      in if prefixMatch \<noteq> key then HasPrefix actual prefixMatch else actual = key)"

definition guessKind :: "string list \<Rightarrow> nat \<Rightarrow> nat" where
  "guessKind tail guess =
     (if tail = [] \<and> guess = 0 then ScalarNode
      else if tail = [] then guess
      else if hd tail = ''+'' \<or> \<not> isl (ParseInt (hd tail)) then SequenceNode
      else if hd tail = ''*'' \<and> (guess = SequenceNode \<or> guess = MappingNode) then guess
      else MappingNode)"

text \<open>\<^verbatim>\<open>getOrReplace\<close> returns the pointer it was given, or a pointer to a new
  node of the expected kind; it does not store the new pointer anywhere.\<close>

definition getOrReplace :: "addr \<Rightarrow> nat \<Rightarrow> heap \<Rightarrow> addr go \<times> heap" where
  "getOrReplace original expectedKind h =
     (case load h original of
        None \<Rightarrow> (Panics NilDereference, h)
      | Some nd \<Rightarrow>
          if Kind nd \<noteq> expectedKind
          then (Return (length h), h @ [zeroNode\<lparr>Kind := expectedKind\<rparr>])
          else (Return original, h))"

subsection \<open>The traversal\<close>

text \<open>
  The state of a traversal is the heap together with the variables the visitor's
  closure captures (the list of matches of \<^verbatim>\<open>Get\<close>; nothing for the others).
  A function that returns \<^verbatim>\<open>error\<close> yields \<open>Return None\<close> for \<^verbatim>\<open>nil\<close>.

  \<^verbatim>\<open>Visit\<close> and the functions under \<^verbatim>\<open>recurse\<close> call each other; every
  call back into \<^verbatim>\<open>Visit\<close> has the form \<^verbatim>\<open>n.Visit(child, tail, visitor)\<close>.
  The functions under \<^verbatim>\<open>recurse\<close> therefore take that call as their argument
  \<open>visit\<close>, and \<open>Visit\<close> itself ties the knot by recursion on the path.
\<close>

type_synonym 'c state = "heap \<times> 'c"
type_synonym 'c VisitorFn = "addr \<Rightarrow> 'c state \<Rightarrow> error option go \<times> 'c state"

text \<open>The loop of \<^verbatim>\<open>splatMap\<close> over \<^verbatim>\<open>value.Content\<close>, from position \<open>index\<close> on.
  The new pointer of \<^verbatim>\<open>getOrReplace\<close> goes to the loop variable only.\<close>

fun splatMap_loop ::
  "string list \<Rightarrow> 'c VisitorFn \<Rightarrow> nat \<Rightarrow> addr list \<Rightarrow> 'c state \<Rightarrow> error option go \<times> 'c state"
where
  "splatMap_loop tail visit index [] s = (Return None, s)"
| "splatMap_loop tail visit index (content # rest) s =
     (if index mod 2 = 0 then splatMap_loop tail visit (index + 1) rest s
      else case load (fst s) content of
             None \<Rightarrow> (Panics NilDereference, s)
           | Some nd \<Rightarrow>
               (case getOrReplace content (guessKind tail (Kind nd)) (fst s) of
                  (Panics p, h') \<Rightarrow> (Panics p, (h', snd s))
                | (Return content', h') \<Rightarrow>
                    (let r = visit content' (h', snd s)
                     in if fst r = Return None
                        then splatMap_loop tail visit (index + 1) rest (snd r)
                        else r)))"

definition splatMap :: "addr \<Rightarrow> string list \<Rightarrow> 'c VisitorFn \<Rightarrow> 'c state \<Rightarrow> error option go \<times> 'c state" where
  "splatMap value tail visit s =
     (case load (fst s) value of
        None \<Rightarrow> (Panics NilDereference, s)
      | Some nd \<Rightarrow> splatMap_loop tail visit 0 (Content nd) s)"

text \<open>
  \<^verbatim>\<open>visitMatchingEntries(contents, key, visit)\<close>. The slice \<^verbatim>\<open>contents\<close> is a
  header over a backing array that the callback may write while the loop runs (the
  callback of \<^verbatim>\<open>Delete\<close> does). The number of iterations is fixed when the
  loop starts, and each iteration reads its element from the array as it then is: so
  \<open>contents\<close> is a function from the current state to the current elements, and
  \<open>heapOf\<close> gives the heap of the current state. The loop runs over the
  positions that are left.
\<close>

fun visitMatchingEntries_loop ::
  "('s \<Rightarrow> heap) \<Rightarrow> ('s \<Rightarrow> addr list) \<Rightarrow> string \<Rightarrow> (nat \<Rightarrow> 's \<Rightarrow> error option go \<times> 's) \<Rightarrow>
   nat list \<Rightarrow> bool \<Rightarrow> 's \<Rightarrow> (bool \<times> error option) go \<times> 's"
where
  "visitMatchingEntries_loop heapOf contents key visit [] visited s = (Return (visited, None), s)"
| "visitMatchingEntries_loop heapOf contents key visit (index # rest) visited s =
     (if index mod 2 = 0 then
        (case load (heapOf s) (contents s ! index) of
           None \<Rightarrow> (Panics NilDereference, s)
         | Some content \<Rightarrow>
             if matchesKey key (Value content) then
               (case visit index s of
                  (Panics p, s') \<Rightarrow> (Panics p, s')
                | (Return (Some errorVisiting), s') \<Rightarrow> (Return (visited, Some errorVisiting), s')
                | (Return None, s') \<Rightarrow>
                    visitMatchingEntries_loop heapOf contents key visit rest True s')
             else visitMatchingEntries_loop heapOf contents key visit rest visited s)
      else visitMatchingEntries_loop heapOf contents key visit rest visited s)"

definition visitMatchingEntries ::
  "('s \<Rightarrow> heap) \<Rightarrow> ('s \<Rightarrow> addr list) \<Rightarrow> string \<Rightarrow> (nat \<Rightarrow> 's \<Rightarrow> error option go \<times> 's) \<Rightarrow>
   's \<Rightarrow> (bool \<times> error option) go \<times> 's"
where
  "visitMatchingEntries heapOf contents key visit s =
     visitMatchingEntries_loop heapOf contents key visit [0..<length (contents s)] False s"

text \<open>The closure that \<^verbatim>\<open>recurseMap\<close> hands to \<^verbatim>\<open>visitMatchingEntries\<close>: it
  stores the pointer of \<^verbatim>\<open>getOrReplace\<close> in \<^verbatim>\<open>value.Content[indexInMap+1]\<close>
  and visits it.\<close>

definition recurseMap_entry ::
  "addr \<Rightarrow> string list \<Rightarrow> 'c VisitorFn \<Rightarrow> nat \<Rightarrow> 'c state \<Rightarrow> error option go \<times> 'c state"
where
  "recurseMap_entry value tail visit indexInMap s =
     (case load (fst s) value of
        None \<Rightarrow> (Panics NilDereference, s)
      | Some nd \<Rightarrow>
          if indexInMap + 1 \<ge> length (Content nd) then (Panics IndexOutOfRange, s)
          else case load (fst s) (Content nd ! (indexInMap + 1)) of
                 None \<Rightarrow> (Panics NilDereference, s)
               | Some child \<Rightarrow>
                   (case getOrReplace (Content nd ! (indexInMap + 1))
                           (guessKind tail (Kind child)) (fst s) of
                      (Panics p, h') \<Rightarrow> (Panics p, (h', snd s))
                    | (Return child', h') \<Rightarrow>
                        visit child'
                          (h'[value := nd\<lparr>Content := (Content nd)[indexInMap + 1 := child']\<rparr>],
                           snd s)))"

text \<open>In \<^verbatim>\<open>recurseMap\<close> the callback writes the odd positions of the array
  only and the loop reads the even ones, so the loop sees the elements that
  \<^verbatim>\<open>value.Content\<close> had at the call.\<close>

definition recurseMap ::
  "addr \<Rightarrow> string \<Rightarrow> string list \<Rightarrow> 'c VisitorFn \<Rightarrow> 'c state \<Rightarrow> error option go \<times> 'c state"
where
  "recurseMap value head tail visit s =
     (case load (fst s) value of
        None \<Rightarrow> (Panics NilDereference, s)
      | Some nd \<Rightarrow>
          (case visitMatchingEntries fst (\<lambda>_. Content nd) head
                  (recurseMap_entry value tail visit) s of
             (Panics p, s') \<Rightarrow> (Panics p, s')
           | (Return (visited, Some errorVisiting), s') \<Rightarrow> (Return (Some errorVisiting), s')
           | (Return (visited, None), s') \<Rightarrow>
               if visited then (Return None, s')
               else case load (fst s') value of
                      None \<Rightarrow> (Panics NilDereference, s')
                    | Some nd' \<Rightarrow>
                        visit (length (fst s') + 1)
                          ((fst s' @ [zeroNode\<lparr>Value := head, Kind := ScalarNode\<rparr>,
                                      zeroNode\<lparr>Kind := guessKind tail 0\<rparr>])
                             [value := nd'\<lparr>Content :=
                                Content nd' @ [length (fst s'), length (fst s') + 1]\<rparr>],
                           snd s')))"

fun splatArray_loop ::
  "string list \<Rightarrow> 'c VisitorFn \<Rightarrow> addr list \<Rightarrow> 'c state \<Rightarrow> error option go \<times> 'c state"
where
  "splatArray_loop tail visit [] s = (Return None, s)"
| "splatArray_loop tail visit (childValue # rest) s =
     (case load (fst s) childValue of
        None \<Rightarrow> (Panics NilDereference, s)
      | Some nd \<Rightarrow>
          (case getOrReplace childValue (guessKind tail (Kind nd)) (fst s) of
             (Panics p, h') \<Rightarrow> (Panics p, (h', snd s))
           | (Return childValue', h') \<Rightarrow>
               (let r = visit childValue' (h', snd s)
                in if fst r = Return None then splatArray_loop tail visit rest (snd r)
                   else r)))"

definition splatArray :: "addr \<Rightarrow> string list \<Rightarrow> 'c VisitorFn \<Rightarrow> 'c state \<Rightarrow> error option go \<times> 'c state" where
  "splatArray value tail visit s =
     (case load (fst s) value of
        None \<Rightarrow> (Panics NilDereference, s)
      | Some nd \<Rightarrow> splatArray_loop tail visit (Content nd) s)"

definition appendArray :: "addr \<Rightarrow> string list \<Rightarrow> 'c VisitorFn \<Rightarrow> 'c state \<Rightarrow> error option go \<times> 'c state" where
  "appendArray value tail visit s =
     (case load (fst s) value of
        None \<Rightarrow> (Panics NilDereference, s)
      | Some nd \<Rightarrow>
          visit (length (fst s))
            ((fst s @ [zeroNode\<lparr>Kind := guessKind tail 0\<rparr>])
               [value := nd\<lparr>Content := Content nd @ [length (fst s)]\<rparr>],
             snd s))"

text \<open>\<^verbatim>\<open>recurseArray\<close> compares the parsed index with the length only from
  above; \<^verbatim>\<open>value.Content[index]\<close> with a negative index is the run-time panic
  of Go.\<close>

definition recurseArray ::
  "addr \<Rightarrow> string \<Rightarrow> string list \<Rightarrow> 'c VisitorFn \<Rightarrow> 'c state \<Rightarrow> error option go \<times> 'c state"
where
  "recurseArray value head tail visit s =
     (case ParseInt head of
        Inl err \<Rightarrow> (Return (Some err), s)
      | Inr index \<Rightarrow>
          (case load (fst s) value of
             None \<Rightarrow> (Panics NilDereference, s)
           | Some nd \<Rightarrow>
               if index \<ge> int (length (Content nd)) then (Return None, s)
               else if index < 0 then (Panics IndexOutOfRange, s)
               else case load (fst s) (Content nd ! nat index) of
                      None \<Rightarrow> (Panics NilDereference, s)
                    | Some child \<Rightarrow>
                        (case getOrReplace (Content nd ! nat index)
                                (guessKind tail (Kind child)) (fst s) of
                           (Panics p, h') \<Rightarrow> (Panics p, (h', snd s))
                         | (Return child', h') \<Rightarrow>
                             visit child'
                               (h'[value := nd\<lparr>Content := (Content nd)[nat index := child']\<rparr>],
                                snd s))))"

definition recurse ::
  "addr \<Rightarrow> string \<Rightarrow> string list \<Rightarrow> 'c VisitorFn \<Rightarrow> 'c state \<Rightarrow> error option go \<times> 'c state"
where
  "recurse value head tail visit s =
     (case load (fst s) value of
        None \<Rightarrow> (Panics NilDereference, s)
      | Some nd \<Rightarrow>
          if Kind nd = MappingNode then
            (if head = ''*'' then splatMap value tail visit s
             else recurseMap value head tail visit s)
          else if Kind nd = SequenceNode then
            (if head = ''*'' then splatArray value tail visit s
             else if head = ''+'' then appendArray value tail visit s
             else recurseArray value head tail visit s)
          else (Return None, s))"

text \<open>The first lines of \<^verbatim>\<open>Visit\<close>: a document node stands for its first child.\<close>

definition realValue :: "heap \<Rightarrow> addr \<Rightarrow> addr go" where
  "realValue h value =
     (case load h value of
        None \<Rightarrow> Panics NilDereference
      | Some nd \<Rightarrow>
          if Kind nd = DocumentNode
          then (if Content nd = [] then Panics IndexOutOfRange else Return (Content nd ! 0))
          else Return value)"

fun Visit :: "addr \<Rightarrow> string list \<Rightarrow> 'c VisitorFn \<Rightarrow> 'c state \<Rightarrow> error option go \<times> 'c state" where
  "Visit value [] visitor s =
     (case realValue (fst s) value of
        Panics p \<Rightarrow> (Panics p, s)
      | Return rv \<Rightarrow> visitor rv s)"
| "Visit value (head # tail) visitor s =
     (case realValue (fst s) value of
        Panics p \<Rightarrow> (Panics p, s)
      | Return rv \<Rightarrow> recurse rv head tail (\<lambda>child s'. Visit child tail visitor s') s)"

subsection \<open>Get, Update, Delete\<close>

text \<open>The visitor of \<^verbatim>\<open>Get\<close> appends the node to \<^verbatim>\<open>matchingNodes\<close>.\<close>

definition Get_visitor :: "(addr list) VisitorFn" where
  "Get_visitor matchedNode s = (Return None, (fst s, snd s @ [matchedNode]))"

text \<open>\<^verbatim>\<open>Get\<close> drops the error of \<^verbatim>\<open>Visit\<close> and returns a nil error itself.\<close>

definition Get :: "addr \<Rightarrow> string list \<Rightarrow> heap \<Rightarrow> (addr option \<times> error option) go \<times> heap" where
  "Get value path h =
     (case Visit value path Get_visitor (h, []) of
        (Panics p, (h', matchingNodes)) \<Rightarrow> (Panics p, h')
      | (Return errorVisiting, (h', matchingNodes)) \<Rightarrow>
          if length matchingNodes = 0 then (Return (None, None), h')
          else if length matchingNodes = 1 then (Return (Some (matchingNodes ! 0), None), h')
          else (Return (Some (length h'), None),
                h' @ [zeroNode\<lparr>Kind := SequenceNode, Content := matchingNodes\<rparr>]))"

text \<open>The eight assignments of the visitor of \<^verbatim>\<open>Update\<close>: the fields it copies from
  \<^verbatim>\<open>changesToApply\<close>; the other fields of the node stay.\<close>

definition assignFrom :: "node \<Rightarrow> node \<Rightarrow> node" where
  "assignFrom changesToApply nodeToUpdate =
     nodeToUpdate\<lparr>
       Value := Value changesToApply,
       Tag := Tag changesToApply,
       Kind := Kind changesToApply,
       Style := Style changesToApply,
       Content := Content changesToApply,
       HeadComment := HeadComment changesToApply,
       LineComment := LineComment changesToApply,
       FootComment := FootComment changesToApply\<rparr>"

definition Update_visitor :: "node \<Rightarrow> unit VisitorFn" where
  "Update_visitor changesToApply nodeToUpdate s =
     (case load (fst s) nodeToUpdate of
        None \<Rightarrow> (Panics NilDereference, s)
      | Some nd \<Rightarrow>
          (Return None, ((fst s)[nodeToUpdate := assignFrom changesToApply nd], snd s)))"

definition Update :: "addr \<Rightarrow> string list \<Rightarrow> node \<Rightarrow> heap \<Rightarrow> error option go \<times> heap" where
  "Update rootNode path changesToApply h =
     (case Visit rootNode path (Update_visitor changesToApply) (h, ()) of
        (errorVisiting, (h', _)) \<Rightarrow> (errorVisiting, h'))"

text \<open>
  The closure that \<^verbatim>\<open>Delete\<close> hands to \<^verbatim>\<open>visitMatchingEntries\<close>. Its state is
  the traversal state and the backing array that \<^verbatim>\<open>original\<close>, \<^verbatim>\<open>contents\<close> and
  \<^verbatim>\<open>nodeToUpdate.Content\<close> share. \<^verbatim>\<open>original\<close> keeps the length it had when
  the visitor started, so \<^verbatim>\<open>append(original[:i], original[i+2:]...)\<close> has room
  in the array: it moves the elements from \<open>i + 2\<close> on two places down, leaves the
  last two where they were, and returns the first \<open>length - 2\<close> elements.
\<close>

definition Delete_entry :: "addr \<Rightarrow> nat \<Rightarrow> 'c state \<times> addr list \<Rightarrow> error option go \<times> 'c state \<times> addr list" where
  "Delete_entry nodeToUpdate indexInMap t =
     (let original = snd t; h = fst (fst t)
      in if indexInMap + 2 > length original then (Panics SliceBoundsOutOfRange, t)
         else
           let array = take indexInMap original @ drop (indexInMap + 2) original
                         @ drop (length original - 2) original
           in (Return None,
               ((h[nodeToUpdate := (h ! nodeToUpdate)\<lparr>Content := take (length original - 2) array\<rparr>],
                 snd (fst t)),
                array)))"

definition Delete_visitor :: "string \<Rightarrow> 'c VisitorFn" where
  "Delete_visitor lastBit nodeToUpdate s =
     (case load (fst s) nodeToUpdate of
        None \<Rightarrow> (Panics NilDereference, s)
      | Some nd \<Rightarrow>
          (let original = Content nd
           in if Kind nd = SequenceNode then
                (case ParseInt lastBit of
                   Inl err \<Rightarrow> (Return (Some err), s)
                 | Inr index \<Rightarrow>
                     if index \<ge> int (length (Content nd)) then (Return None, s)
                     else if index < 0 then (Panics SliceBoundsOutOfRange, s)
                     else (Return None,
                           ((fst s)[nodeToUpdate := nd\<lparr>Content :=
                               take (nat index) original @ drop (nat index + 1) original\<rparr>],
                            snd s)))
              else if Kind nd = MappingNode then
                (case visitMatchingEntries (\<lambda>t. fst (fst t)) snd lastBit
                        (Delete_entry nodeToUpdate) (s, original) of
                   (Panics p, t') \<Rightarrow> (Panics p, fst t')
                 | (Return (visited, errorVisiting), t') \<Rightarrow> (Return errorVisiting, fst t'))
              else (Return None, s)))"

text \<open>
  \<^verbatim>\<open>Delete\<close> starts with
  \<^verbatim>\<open>lastBit, newTail := path[len(path)-1], path[:len(path)-1]\<close>. On the empty path
  both expressions are out of range. The language leaves open which of the two is
  evaluated first; the compiled program evaluates the slice expression first and
  panics with \<^verbatim>\<open>slice bounds out of range [:-1]\<close>.
\<close>

definition Delete :: "addr \<Rightarrow> string list \<Rightarrow> heap \<Rightarrow> error option go \<times> heap" where
  "Delete rootNode path h =
     (if path = [] then (Panics SliceBoundsOutOfRange, h)
      else
        let lastBit = last path; newTail = butlast path
        in case Visit rootNode newTail (Delete_visitor lastBit) (h, ()) of
             (errorVisiting, (h', _)) \<Rightarrow> (errorVisiting, h'))"

subsection \<open>Notions used in the statements\<close>

text \<open>The key node at pointer \<open>p\<close> matches the segment.\<close>

definition keyMatches :: "heap \<Rightarrow> string \<Rightarrow> addr \<Rightarrow> bool" where
  "keyMatches h key p = (case load h p of None \<Rightarrow> False | Some k \<Rightarrow> matchesKey key (Value k))"

text \<open>The even positions of a mapping's \<^verbatim>\<open>Content\<close> whose key matches the segment.\<close>

definition matchingEntries :: "heap \<Rightarrow> addr list \<Rightarrow> string \<Rightarrow> nat list" where
  "matchingEntries h contents key =
     filter (\<lambda>i. i mod 2 = 0 \<and> keyMatches h key (contents ! i)) [0..<length contents]"

text \<open>The node agrees with \<open>v\<close> on the fields that \<^verbatim>\<open>Update\<close> writes.\<close>

definition updatedFrom :: "node \<Rightarrow> node \<Rightarrow> bool" where
  "updatedFrom nd v =
     (Value nd = Value v \<and> Tag nd = Tag v \<and> Kind nd = Kind v \<and> Style nd = Style v \<and>
      Content nd = Content v \<and> HeadComment nd = HeadComment v \<and>
      LineComment nd = LineComment v \<and> FootComment nd = FootComment v)"

text \<open>
  A heap in which the nodes form a forest: the children of a node are distinct nodes
  of the heap, no node is a child of two nodes, and a child has a larger pointer
  than its parent (so there is no cycle; a node allocated later than every node of
  the heap can become the child of any of them).
\<close>

definition isForest :: "heap \<Rightarrow> bool" where
  "isForest h =
     (list_all (\<lambda>p. distinct (Content (h ! p)) \<and>
                     list_all (\<lambda>c. p < c \<and> c < length h) (Content (h ! p)) \<and>
                     list_all (\<lambda>q. p = q \<or> list_all (\<lambda>c. c \<notin> set (Content (h ! q))) (Content (h ! p)))
                       [0..<length h])
        [0..<length h])"

text \<open>The nodes a traversal that starts at \<open>a\<close> may write: \<open>a\<close> itself and the
  children of the nodes that are not before \<open>a\<close>.\<close>

definition touched :: "heap \<Rightarrow> addr \<Rightarrow> addr set" where
  "touched h a = insert a {b. \<exists>p. a \<le> p \<and> p < length h \<and> b \<in> set (Content (h ! p))}"

text \<open>
  A path that a traversal can follow from a new empty node: every segment becomes a
  key of a new mapping, so it is neither \<^verbatim>\<open>*\<close> nor \<^verbatim>\<open>+\<close> nor an integer (for the
  last two \<^verbatim>\<open>guessKind\<close> asks for a sequence, and a new sequence has no
  element to go to).
\<close>

fun creatable :: "string list \<Rightarrow> bool" where
  "creatable [] = True"
| "creatable (seg # tail) =
     (seg \<noteq> ''*'' \<and> seg \<noteq> ''+'' \<and> isl (ParseInt seg) \<and> creatable tail)"

text \<open>
  A path that addresses one node from \<open>a\<close>: at a mapping with an even number of
  entries the segment is not \<^verbatim>\<open>*\<close> and matches the key of at most one entry, at a
  sequence it is an index within range; the child is followed if it has the kind
  that \<^verbatim>\<open>guessKind\<close> asks for, and otherwise, or when no key matches, the rest
  of the path is one that can be created. The node at the end of the path is not a
  document node.
\<close>

fun addressable :: "heap \<Rightarrow> addr \<Rightarrow> string list \<Rightarrow> bool" where
  "addressable h a [] = (a < length h \<and> Kind (h ! a) \<noteq> DocumentNode)"
| "addressable h a (seg # tail) =
     (a < length h \<and>
      (if Kind (h ! a) = MappingNode then
         seg \<noteq> ''*'' \<and> length (Content (h ! a)) mod 2 = 0 \<and>
         (case matchingEntries h (Content (h ! a)) seg of
            [] \<Rightarrow> creatable tail
          | [k] \<Rightarrow>
              (let c = Content (h ! a) ! (k + 1)
               in if Kind (h ! c) = guessKind tail (Kind (h ! c)) then addressable h c tail
                  else creatable tail)
          | _ \<Rightarrow> False)
       else if Kind (h ! a) = SequenceNode then
         (case ParseInt seg of
            Inl err \<Rightarrow> False
          | Inr i \<Rightarrow>
              0 \<le> i \<and> i < int (length (Content (h ! a))) \<and>
              (let c = Content (h ! a) ! nat i
               in if Kind (h ! c) = guessKind tail (Kind (h ! c)) then addressable h c tail
                  else creatable tail))
       else False))"

text \<open>
  The traversal of \<^verbatim>\<open>Update\<close> with \<open>v\<close> from \<open>a\<close> along the path returns nil
  and leaves the heap \<open>h'\<close>; on \<open>h'\<close> the traversal of \<^verbatim>\<open>Get\<close> calls its visitor
  on \<open>m\<close> only and changes nothing; \<open>m\<close> holds the fields of \<open>v\<close>; and the nodes of
  \<open>h\<close> outside \<open>touched h a\<close> are as they were.
\<close>

definition updateReaches :: "node \<Rightarrow> heap \<Rightarrow> addr \<Rightarrow> string list \<Rightarrow> addr \<Rightarrow> heap \<Rightarrow> bool" where
  "updateReaches v h a path m h' =
     (Visit a path (Update_visitor v) (h, ()) = (Return None, (h', ())) \<and>
      (\<forall>ms. Visit a path Get_visitor (h', ms) = (Return None, (h', ms @ [m]))) \<and>
      m < length h' \<and> updatedFrom (h' ! m) v \<and> length h \<le> length h' \<and>
      (\<forall>b<length h. b \<notin> touched h a \<longrightarrow> h' ! b = h ! b) \<and>
      Kind (h' ! a) = (if path = [] then Kind v else Kind (h ! a)))"

text \<open>The heap with the \<^verbatim>\<open>Content\<close> of the node at \<open>p\<close> set to \<open>cs\<close>.\<close>

definition withContent :: "heap \<Rightarrow> addr \<Rightarrow> addr list \<Rightarrow> heap" where
  "withContent h p cs = h[p := (h ! p)\<lparr>Content := cs\<rparr>]"

text \<open>
  The node that a path leads to through nodes that exist: at a mapping whose
  \<^verbatim>\<open>Content\<close> has even length the segment is not \<^verbatim>\<open>*\<close> and matches the key of
  exactly one entry, at a sequence it is an index from 0 within range, and the
  child has the kind that \<^verbatim>\<open>guessKind\<close> asks for when \<open>lastBit\<close> follows the
  path: every node below \<open>a\<close>, the node at the end of the path included, is a
  sequence when the segment after it (\<open>lastBit\<close> for the node at the end) is an
  integer or \<^verbatim>\<open>+\<close>, a mapping or a sequence when that segment is \<^verbatim>\<open>*\<close>, and a
  mapping otherwise. Then no traversal of the path, with or without \<open>lastBit\<close>
  after it, creates or replaces a node on the way. There is no condition on the
  kind of \<open>a\<close> itself when the path is empty.
\<close>

fun container :: "heap \<Rightarrow> addr \<Rightarrow> string list \<Rightarrow> string \<Rightarrow> addr option" where
  "container h a [] lastBit = (if a < length h then Some a else None)"
| "container h a (seg # tail) lastBit =
     (if a < length h then
        (if Kind (h ! a) = MappingNode then
           (if seg \<noteq> ''*'' \<and> length (Content (h ! a)) mod 2 = 0 then
              (case matchingEntries h (Content (h ! a)) seg of
                 [k] \<Rightarrow>
                   (let c = Content (h ! a) ! (k + 1)
                    in if Kind (h ! c) = guessKind (tail @ [lastBit]) (Kind (h ! c))
                       then container h c tail lastBit else None)
               | _ \<Rightarrow> None)
            else None)
         else if Kind (h ! a) = SequenceNode then
           (case ParseInt seg of
              Inl err \<Rightarrow> None
            | Inr i \<Rightarrow>
                if 0 \<le> i \<and> i < int (length (Content (h ! a))) then
                  (let c = Content (h ! a) ! nat i
                   in if Kind (h ! c) = guessKind (tail @ [lastBit]) (Kind (h ! c))
                      then container h c tail lastBit else None)
                else None)
         else None)
      else None)"

text \<open>The call returned a non-nil \<^verbatim>\<open>error\<close>.\<close>

definition returnsError :: "error option go \<Rightarrow> bool" where
  "returnsError r = (case r of Return (Some err) \<Rightarrow> True | Return None \<Rightarrow> False | Panics p \<Rightarrow> False)"

subsection \<open>Example documents\<close>

definition scalarOf :: "string \<Rightarrow> node" where
  "scalarOf v = zeroNode\<lparr>Kind := ScalarNode, Value := v\<rparr>"

definition mappingOf :: "addr list \<Rightarrow> node" where
  "mappingOf cs = zeroNode\<lparr>Kind := MappingNode, Content := cs\<rparr>"

definition sequenceOf :: "addr list \<Rightarrow> node" where
  "sequenceOf cs = zeroNode\<lparr>Kind := SequenceNode, Content := cs\<rparr>"

text \<open>The mapping \<^verbatim>\<open>{a: 1}\<close>, at pointer 0.\<close>

definition doc_a :: heap where
  "doc_a = [mappingOf [1, 2], scalarOf ''a'', scalarOf ''1'']"

text \<open>The mapping \<^verbatim>\<open>{x: 1, x: 2}\<close> with a duplicate key, at pointer 0.\<close>

definition doc_dup :: heap where
  "doc_dup = [mappingOf [1, 2, 3, 4], scalarOf ''x'', scalarOf ''1'', scalarOf ''x'', scalarOf ''2'']"

text \<open>The sequence \<^verbatim>\<open>[10, 20, 30]\<close>, at pointer 0.\<close>

definition doc_seq :: heap where
  "doc_seq = [sequenceOf [1, 2, 3], scalarOf ''10'', scalarOf ''20'', scalarOf ''30'']"

text \<open>The mapping \<^verbatim>\<open>{a: {b: 1}}\<close>, at pointer 0.\<close>

definition doc_ab :: heap where
  "doc_ab = [mappingOf [1, 2], scalarOf ''a'', mappingOf [3, 4], scalarOf ''b'', scalarOf ''1'']"


text \<open>The sequence \<^verbatim>\<open>[1, 2]\<close>, at pointer 0.\<close>

definition doc_12 :: heap where
  "doc_12 = [sequenceOf [1, 2], scalarOf ''1'', scalarOf ''2'']"

text \<open>The mapping \<^verbatim>\<open>{ports: {"80": http, "443": https}}\<close>, at pointer 0.\<close>

definition doc_ports :: heap where
  "doc_ports = [mappingOf [1, 2], scalarOf ''ports'', mappingOf [3, 4, 5, 6],
                scalarOf ''80'', scalarOf ''http'', scalarOf ''443'', scalarOf ''https'']"

section \<open>Properties\<close>

subsection \<open>Auxiliary facts\<close>

lemma load_Some: "load h p = Some nd \<longleftrightarrow> p < length h \<and> nd = h ! p"
  by (auto simp: load_def)

lemma load_None: "load h p = None \<longleftrightarrow> \<not> p < length h"
  by (auto simp: load_def)

lemma HasPrefix_prefix: "HasPrefix s pre = prefix pre s"
  unfolding HasPrefix_def
  by (metis append_eq_conv_conj prefix_def prefix_length_le take_is_prefix)

text \<open>Positions whose keys do not match leave the loop's state alone.\<close>

lemma vme_loop_no_match:
  assumes "\<And>index. index \<in> set idxs \<Longrightarrow> index mod 2 = 0 \<Longrightarrow>
             \<exists>k. load (heapOf s) (contents s ! index) = Some k \<and> \<not> matchesKey key (Value k)"
  shows "visitMatchingEntries_loop heapOf contents key visit (idxs @ rest) visited s
           = visitMatchingEntries_loop heapOf contents key visit rest visited s"
  using assms
proof (induction idxs)
  case Nil
  then show ?case by simp
next
  case (Cons index idxs)
  show ?case
  proof (cases "index mod 2 = 0")
    case True
    then obtain k where "load (heapOf s) (contents s ! index) = Some k" "\<not> matchesKey key (Value k)"
      using Cons.prems[of index] by auto
    then show ?thesis using True Cons by simp
  next
    case False
    then show ?thesis using Cons by simp
  qed
qed

text \<open>A single matching position: the callback runs once, on the state the loop started with.\<close>

lemma vme_loop_one_match:
  assumes pre: "\<And>index. index \<in> set pre \<Longrightarrow> index mod 2 = 0 \<Longrightarrow>
             \<exists>k. load (heapOf s) (contents s ! index) = Some k \<and> \<not> matchesKey key (Value k)"
    and k: "k mod 2 = 0" "load (heapOf s) (contents s ! k) = Some kn" "matchesKey key (Value kn)"
    and v: "visit k s = (Return None, s')"
    and post: "\<And>index. index \<in> set post \<Longrightarrow> index mod 2 = 0 \<Longrightarrow>
             \<exists>k. load (heapOf s') (contents s' ! index) = Some k \<and> \<not> matchesKey key (Value k)"
  shows "visitMatchingEntries_loop heapOf contents key visit (pre @ k # post) visited s
           = (Return (True, None), s')"
proof -
  have "visitMatchingEntries_loop heapOf contents key visit (pre @ k # post) visited s
      = visitMatchingEntries_loop heapOf contents key visit (k # post) visited s"
    by (rule vme_loop_no_match) (use pre in auto)
  also have "\<dots> = visitMatchingEntries_loop heapOf contents key visit (post @ []) True s'"
    using k v by simp
  also have "\<dots> = visitMatchingEntries_loop heapOf contents key visit [] True s'"
    by (rule vme_loop_no_match) (use post in auto)
  finally show ?thesis by simp
qed

lemma filter_empty_D: "filter P xs = [] \<Longrightarrow> x \<in> set xs \<Longrightarrow> \<not> P x"
  by (simp add: filter_empty_conv)

lemma filter_single_D:
  assumes "filter P xs = [k]"
  shows "P k" "k \<in> set xs" "\<And>x. x \<in> set xs \<Longrightarrow> P x \<Longrightarrow> x = k"
proof -
  have s: "set (filter P xs) = {k}" using assms by simp
  show "P k" "k \<in> set xs" using s by auto
  fix x assume "x \<in> set xs" "P x"
  then have "x \<in> set (filter P xs)" by simp
  then show "x = k" using s by blast
qed

lemma matchingEntries_Nil:
  assumes "matchingEntries h cs key = []" "i < length cs" "i mod 2 = 0"
  shows "\<not> keyMatches h key (cs ! i)"
  using filter_empty_D[OF assms(1)[unfolded matchingEntries_def], of i] assms(2,3) by simp

lemma matchingEntries_single:
  assumes "matchingEntries h cs key = [k]"
  shows "k < length cs" "k mod 2 = 0" "keyMatches h key (cs ! k)"
    "\<And>i. i < length cs \<Longrightarrow> i mod 2 = 0 \<Longrightarrow> i \<noteq> k \<Longrightarrow> \<not> keyMatches h key (cs ! i)"
proof -
  note f = filter_single_D[OF assms[unfolded matchingEntries_def]]
  show "k < length cs" using f(2) by simp
  show "k mod 2 = 0" "keyMatches h key (cs ! k)" using f(1) by simp_all
  fix i assume "i < length cs" "i mod 2 = 0" "i \<noteq> k"
  then show "\<not> keyMatches h key (cs ! i)" using f(3)[of i] by auto
qed

lemma upt_split3: "k < n \<Longrightarrow> [0..<n] = [0..<k] @ k # [Suc k..<n]"
  by (metis le_add1 less_imp_add_positive upt_add_eq_append upt_conv_Cons plus_nat.add_0)

lemma no_match_loaded:
  assumes "set cs \<subseteq> {..<length h}" "matchingEntries h cs key = []" "i < length cs" "i mod 2 = 0"
  shows "\<exists>k. load h (cs ! i) = Some k \<and> \<not> matchesKey key (Value k)"
proof -
  have "cs ! i < length h" using assms(1,3) by (meson lessThan_iff nth_mem subsetD)
  moreover have "\<not> keyMatches h key (cs ! i)" using assms by (rule_tac matchingEntries_Nil)
  ultimately show ?thesis by (simp add: keyMatches_def load_def)
qed

text \<open>\<^verbatim>\<open>recurseMap\<close> on a mapping none of whose keys matches.\<close>

lemma recurseMap_no_match:
  assumes "load (fst s) value = Some nd"
    and "set (Content nd) \<subseteq> {..<length (fst s)}"
    and "matchingEntries (fst s) (Content nd) head = []"
  shows "recurseMap value head tail visit s =
           visit (length (fst s) + 1)
             ((fst s @ [zeroNode\<lparr>Value := head, Kind := ScalarNode\<rparr>,
                        zeroNode\<lparr>Kind := guessKind tail 0\<rparr>])
                [value := nd\<lparr>Content := Content nd @ [length (fst s), length (fst s) + 1]\<rparr>],
              snd s)"
proof -
  have "visitMatchingEntries_loop fst (\<lambda>_. Content nd) head (recurseMap_entry value tail visit)
          ([0..<length (Content nd)] @ []) False s
        = visitMatchingEntries_loop fst (\<lambda>_. Content nd) head (recurseMap_entry value tail visit)
          [] False s"
    by (rule vme_loop_no_match) (use no_match_loaded[OF assms(2,3)] in auto)
  then have "visitMatchingEntries fst (\<lambda>_. Content nd) head (recurseMap_entry value tail visit) s
          = (Return (False, None), s)"
    by (simp add: visitMatchingEntries_def)
  then show ?thesis using assms(1) by (simp add: recurseMap_def)
qed

subsection \<open>Forests, and the route of a path that addresses one node\<close>

lemma isForest_iff:
  "isForest h \<longleftrightarrow>
     (\<forall>p<length h. distinct (Content (h ! p))) \<and>
     (\<forall>p<length h. \<forall>c \<in> set (Content (h ! p)). p < c \<and> c < length h) \<and>
     (\<forall>p<length h. \<forall>q<length h. p \<noteq> q \<longrightarrow> set (Content (h ! p)) \<inter> set (Content (h ! q)) = {})"
proof -
  have "isForest h \<longleftrightarrow>
     (\<forall>p\<in>{0..<length h}. distinct (Content (h ! p)) \<and>
        (\<forall>c \<in> set (Content (h ! p)). p < c \<and> c < length h) \<and>
        (\<forall>q\<in>{0..<length h}. p = q \<or> (\<forall>c \<in> set (Content (h ! p)). c \<notin> set (Content (h ! q)))))"
    unfolding isForest_def list_all_iff set_upt ..
  also have "\<dots> \<longleftrightarrow>
     (\<forall>p<length h. distinct (Content (h ! p)) \<and>
        (\<forall>c \<in> set (Content (h ! p)). p < c \<and> c < length h) \<and>
        (\<forall>q<length h. p = q \<or> (\<forall>c \<in> set (Content (h ! p)). c \<notin> set (Content (h ! q)))))"
    by (simp only: Ball_def atLeastLessThan_iff le0 simp_thms)
  also have "\<dots> \<longleftrightarrow>
     (\<forall>p<length h. distinct (Content (h ! p))) \<and>
     (\<forall>p<length h. \<forall>c \<in> set (Content (h ! p)). p < c \<and> c < length h) \<and>
     (\<forall>p<length h. \<forall>q<length h. p \<noteq> q \<longrightarrow> set (Content (h ! p)) \<inter> set (Content (h ! q)) = {})"
    by (simp only: disjoint_iff) blast
  finally show ?thesis .
qed

lemma isForest_D:
  assumes "isForest h"
  shows "\<forall>p<length h. distinct (Content (h ! p))"
    and "\<forall>p<length h. \<forall>c \<in> set (Content (h ! p)). p < c \<and> c < length h"
    and "\<forall>p<length h. \<forall>q<length h. p \<noteq> q \<longrightarrow> set (Content (h ! p)) \<inter> set (Content (h ! q)) = {}"
proof -
  note * = iffD1[OF isForest_iff, OF assms]
  show "\<forall>p<length h. distinct (Content (h ! p))" by (rule conjunct1[OF *])
  show "\<forall>p<length h. \<forall>c \<in> set (Content (h ! p)). p < c \<and> c < length h"
    by (rule conjunct1[OF conjunct2[OF *]])
  show "\<forall>p<length h. \<forall>q<length h. p \<noteq> q \<longrightarrow> set (Content (h ! p)) \<inter> set (Content (h ! q)) = {}"
    by (rule conjunct2[OF conjunct2[OF *]])
qed

lemma isForest_child:
  "isForest h \<Longrightarrow> p < length h \<Longrightarrow> c \<in> set (Content (h ! p)) \<Longrightarrow> p < c \<and> c < length h"
  using isForest_D(2) by blast

lemma isForest_distinct: "isForest h \<Longrightarrow> p < length h \<Longrightarrow> distinct (Content (h ! p))"
  using isForest_D(1) by blast

lemma isForest_one_parent:
  assumes "isForest h" "p < length h" "q < length h" "c \<in> set (Content (h ! p))"
    "c \<in> set (Content (h ! q))"
  shows "p = q"
proof (rule ccontr)
  assume "p \<noteq> q"
  then have "set (Content (h ! p)) \<inter> set (Content (h ! q)) = {}"
    using isForest_D(3)[OF assms(1)] assms(2,3) by blast
  then show False using assms(4,5) by blast
qed

text \<open>A heap that agrees with a forest except at one node, whose children are replaced
  by children of its own and new pointers, and except for new nodes without children.\<close>

lemma isForest_extend:
  assumes f: "isForest h" and a: "a < length h" and len: "length h \<le> length h1"
    and old: "\<And>p. p < length h \<Longrightarrow> p \<noteq> a \<Longrightarrow> Content (h1 ! p) = Content (h ! p)"
    and new: "\<And>p. length h \<le> p \<Longrightarrow> p < length h1 \<Longrightarrow> Content (h1 ! p) = []"
    and sub: "set (Content (h1 ! a)) \<subseteq> set (Content (h ! a)) \<union> {length h..<length h1}"
    and d: "distinct (Content (h1 ! a))"
  shows "isForest h1"
proof -
  have notin: "c < length h" if "p < length h" "c \<in> set (Content (h ! p))" for p c
    using isForest_child[OF f that] by auto
  have child: "p < c \<and> c < length h1" if p: "p < length h1" and c: "c \<in> set (Content (h1 ! p))" for p c
  proof (cases "p = a")
    case True
    then have "c \<in> set (Content (h ! a)) \<or> (length h \<le> c \<and> c < length h1)" using c sub by auto
    then show ?thesis using True a len isForest_child[OF f a, of c] by auto
  next
    case False
    show ?thesis
    proof (cases "p < length h")
      case True
      then have "c \<in> set (Content (h ! p))" using c old[OF True False] by simp
      then show ?thesis using isForest_child[OF f True, of c] len by auto
    next
      case False
      then show ?thesis using new[of p] p c by simp
    qed
  qed
  have disj: "set (Content (h1 ! x)) \<inter> set (Content (h1 ! y)) = {}"
    if x: "x < length h1" and y: "y < length h1" and ne: "x \<noteq> y" and ya: "y \<noteq> a" for x y
  proof (cases "y < length h")
    case False
    then show ?thesis using new[of y] y by simp
  next
    case yl: True
    then have Cy: "Content (h1 ! y) = Content (h ! y)" using old ya by simp
    show ?thesis
    proof (cases "x = a")
      case True
      have "set (Content (h ! a)) \<inter> set (Content (h ! y)) = {}"
        using isForest_one_parent[OF f a yl] ya by blast
      moreover have "{length h..<length h1} \<inter> set (Content (h ! y)) = {}"
        using notin[OF yl] by fastforce
      ultimately have "(set (Content (h ! a)) \<union> {length h..<length h1}) \<inter> set (Content (h ! y)) = {}"
        by (simp only: Int_Un_distrib2 Un_empty)
      then have "set (Content (h1 ! a)) \<inter> set (Content (h ! y)) = {}"
        using sub by (meson disjoint_iff subsetD)
      then show ?thesis by (simp only: Cy True)
    next
      case xa: False
      show ?thesis
      proof (cases "x < length h")
        case True
        then have "Content (h1 ! x) = Content (h ! x)" using old xa by simp
        moreover have "set (Content (h ! x)) \<inter> set (Content (h ! y)) = {}"
          using isForest_D(3)[OF f] True yl ne by blast
        ultimately show ?thesis by (simp only: Cy)
      next
        case False
        then show ?thesis using new[of x] x by simp
      qed
    qed
  qed
  have A: "\<forall>p<length h1. distinct (Content (h1 ! p))"
  proof (intro allI impI)
    fix p assume p: "p < length h1"
    show "distinct (Content (h1 ! p))"
    proof (cases "p = a")
      case True
      then show ?thesis using d by simp
    next
      case False
      then show ?thesis using old[of p] new[of p] p isForest_distinct[OF f, of p]
        by (cases "p < length h") auto
    qed
  qed
  have B: "\<forall>p<length h1. \<forall>c\<in>set (Content (h1 ! p)). p < c \<and> c < length h1"
    using child by blast
  have C: "\<forall>p<length h1. \<forall>q<length h1. p \<noteq> q \<longrightarrow>
             set (Content (h1 ! p)) \<inter> set (Content (h1 ! q)) = {}"
  proof (intro allI impI)
    fix p q assume p: "p < length h1" and q: "q < length h1" and ne: "p \<noteq> q"
    show "set (Content (h1 ! p)) \<inter> set (Content (h1 ! q)) = {}"
    proof (cases "q = a")
      case True
      then have "p \<noteq> a" using ne by simp
      from disj[OF q p _ this] ne show ?thesis by (simp add: Int_commute)
    next
      case False
      from disj[OF p q ne False] show ?thesis .
    qed
  qed
  show ?thesis by (rule iffD2[OF isForest_iff]) (intro conjI A B C)
qed

lemma matchesKey_refl: "matchesKey key key"
  by (auto simp: matchesKey_def TrimSuffix_def HasPrefix_def min_def)

lemma realValue_plain: "p < length h \<Longrightarrow> Kind (h ! p) \<noteq> DocumentNode \<Longrightarrow> realValue h p = Return p"
  by (simp add: realValue_def load_def)

lemma guessKind_Nil: "guessKind [] g = (if g = 0 then ScalarNode else g)"
  by (simp add: guessKind_def)

lemma guessKind_idem: "guessKind tail (guessKind tail k) = guessKind tail k"
  by (simp add: guessKind_def)

lemma guessKind_creatable: "creatable (seg # tail) \<Longrightarrow> guessKind (seg # tail) k = MappingNode"
  by (simp add: guessKind_def)

lemma ParseInt_star: "ParseInt ''*'' = Inl (NumError ''*'' ErrSyntax)"
  by code_simp

lemma ParseInt_plus: "ParseInt ''+'' = Inl (NumError ''+'' ErrSyntax)"
  by code_simp

lemma updatedFrom_assignFrom: "updatedFrom (assignFrom v nd) v"
  by (simp add: updatedFrom_def assignFrom_def)

lemma Kind_assignFrom: "Kind (assignFrom v nd) = Kind v"
  by (simp add: assignFrom_def)

lemma getOrReplace_same:
  "c < length h \<Longrightarrow> Kind (h ! c) = k \<Longrightarrow> getOrReplace c k h = (Return c, h)"
  by (simp add: getOrReplace_def load_def)

lemma getOrReplace_new:
  "c < length h \<Longrightarrow> Kind (h ! c) \<noteq> k \<Longrightarrow>
     getOrReplace c k h = (Return (length h), h @ [zeroNode\<lparr>Kind := k\<rparr>])"
  by (simp add: getOrReplace_def load_def)

lemma matchingEntries_empty_list: "matchingEntries h [] seg = []"
  by (simp add: matchingEntries_def)

lemma addressable_fresh:
  assumes "creatable tail" "c < length h" "Content (h ! c) = []"
    and "Kind (h ! c) = guessKind tail k0" "Kind (h ! c) \<noteq> DocumentNode"
  shows "addressable h c tail"
proof (cases tail)
  case Nil
  then show ?thesis using assms by simp
next
  case (Cons seg tail')
  then have "Kind (h ! c) = MappingNode" using assms(1,4) guessKind_creatable by simp
  then show ?thesis using assms(1-3) Cons by (simp add: matchingEntries_empty_list)
qed

lemma touched_self: "a \<in> touched h a"
  by (simp add: touched_def)

lemma touched_child: "a < length h \<Longrightarrow> c \<in> set (Content (h ! a)) \<Longrightarrow> c \<in> touched h a"
  by (auto simp: touched_def)

lemma touched_I: "a \<le> p \<Longrightarrow> p < length h \<Longrightarrow> b \<in> set (Content (h ! p)) \<Longrightarrow> b \<in> touched h a"
  by (auto simp: touched_def)

lemma touched_E:
  assumes "b \<in> touched h a" "b \<noteq> a"
  obtains p where "a \<le> p" "p < length h" "b \<in> set (Content (h ! p))"
  using assms by (auto simp: touched_def)

text \<open>Frame of a traversal from a child, seen from the parent.\<close>
lemma descend_frame:
  assumes f: "isForest h1" and a: "a < length h1" and c: "c' \<in> set (Content (h1 ! a))"
    and fr: "\<forall>b<length h1. b \<notin> touched h1 c' \<longrightarrow> h' ! b = h1 ! b"
  shows "h' ! a = h1 ! a"
    and "\<And>b. b \<in> set (Content (h1 ! a)) \<Longrightarrow> b \<noteq> c' \<Longrightarrow> h' ! b = h1 ! b"
proof -
  have ac: "a < c'" using isForest_child[OF f a c] by simp
  have "a \<notin> touched h1 c'"
  proof
    assume t: "a \<in> touched h1 c'"
    have "a \<noteq> c'" using ac by simp
    from touched_E[OF t this] obtain p where p: "c' \<le> p" "p < length h1" "a \<in> set (Content (h1 ! p))"
      by blast
    then have "p < a" using isForest_child[OF f p(2) p(3)] by simp
    then show False using ac p(1) by simp
  qed
  then show "h' ! a = h1 ! a" using fr a by blast
  fix b assume b: "b \<in> set (Content (h1 ! a))" "b \<noteq> c'"
  have bl: "b < length h1" using isForest_child[OF f a b(1)] by simp
  have "b \<notin> touched h1 c'"
  proof
    assume t: "b \<in> touched h1 c'"
    from touched_E[OF t b(2)] obtain p where p: "c' \<le> p" "p < length h1" "b \<in> set (Content (h1 ! p))"
      by blast
    have "p = a" using isForest_one_parent[OF f p(2) a p(3) b(1)] .
    then show False using ac p(1) by simp
  qed
  then show "h' ! b = h1 ! b" using fr bl by blast
qed

lemma touched_descend:
  assumes a: "a < length h" and b: "b < length h" "b \<notin> touched h a"
    and len: "length h \<le> length h1"
    and old: "\<And>p. p < length h \<Longrightarrow> p \<noteq> a \<Longrightarrow> h1 ! p = h ! p"
    and new: "\<And>p. length h \<le> p \<Longrightarrow> p < length h1 \<Longrightarrow> Content (h1 ! p) = []"
    and c: "a < c'" "c' \<in> set (Content (h ! a)) \<or> length h \<le> c'"
  shows "b \<notin> touched h1 c'" and "h1 ! b = h ! b"
proof -
  have ba: "b \<noteq> a" using b(2) touched_self by blast
  then show "h1 ! b = h ! b" using old b(1) by simp
  have bc: "b \<noteq> c'" using c(2) b touched_child[OF a] by auto
  show "b \<notin> touched h1 c'"
  proof
    assume t: "b \<in> touched h1 c'"
    from touched_E[OF t bc] obtain p where p: "c' \<le> p" "p < length h1" "b \<in> set (Content (h1 ! p))"
      by blast
    show False
    proof (cases "p < length h")
      case True
      have "p \<noteq> a" using c(1) p(1) by simp
      then have "b \<in> set (Content (h ! p))" using old[OF True] p(3) by simp
      moreover have "a \<le> p" using c(1) p(1) by simp
      ultimately show False using b(2) touched_I[OF _ True] by blast
    next
      case False
      then show False using new[of p] p by simp
    qed
  qed
qed

lemma keys_of_single:
  assumes m: "matchingEntries h cs seg = [k]" and sub: "\<And>c. c \<in> set cs \<Longrightarrow> c < length h"
    and j: "j < length cs" "j mod 2 = 0"
  shows "cs ! j < length h \<and> (matchesKey seg (Value (h ! (cs ! j))) \<longleftrightarrow> j = k)"
proof -
  note k = matchingEntries_single[OF m]
  have l: "cs ! j < length h" using sub j(1) by simp
  show ?thesis
  proof (cases "j = k")
    case True
    then show ?thesis using k(3) l by (simp add: keyMatches_def load_def)
  next
    case False
    then show ?thesis using k(4)[OF j False] l by (simp add: keyMatches_def load_def)
  qed
qed

lemma keys_of_none:
  assumes m: "matchingEntries h cs seg = []" and sub: "\<And>c. c \<in> set cs \<Longrightarrow> c < length h"
    and j: "j < length cs" "j mod 2 = 0"
  shows "cs ! j < length h \<and> \<not> matchesKey seg (Value (h ! (cs ! j)))"
  using matchingEntries_Nil[OF m j] sub j(1) by (simp add: keyMatches_def load_def)

text \<open>recurseMap when exactly the key at position k matches, before and after the callback.\<close>
lemma recurseMap_at:
  assumes nd: "load (fst s) value = Some nd"
    and k: "k < length (Content nd)" "k mod 2 = 0"
    and keys: "\<And>j. j < length (Content nd) \<Longrightarrow> j mod 2 = 0 \<Longrightarrow>
                 Content nd ! j < length (fst s) \<and>
                 (matchesKey seg (Value (fst s ! (Content nd ! j))) \<longleftrightarrow> j = k)"
    and entry: "recurseMap_entry value tail visit k s = (Return None, s')"
    and post: "\<And>j. k < j \<Longrightarrow> j < length (Content nd) \<Longrightarrow> j mod 2 = 0 \<Longrightarrow>
                 Content nd ! j < length (fst s') \<and>
                 Value (fst s' ! (Content nd ! j)) = Value (fst s ! (Content nd ! j))"
  shows "recurseMap value seg tail visit s = (Return None, s')"
proof -
  let ?cs = "Content nd"
  have "visitMatchingEntries_loop fst (\<lambda>_. ?cs) seg (recurseMap_entry value tail visit)
          ([0..<k] @ k # [Suc k..<length ?cs]) False s = (Return (True, None), s')"
  proof (rule vme_loop_one_match[where kn = "fst s ! (?cs ! k)"])
    show "k mod 2 = 0" by (rule k(2))
    show "load (fst s) (?cs ! k) = Some (fst s ! (?cs ! k))" using keys[OF k] by (simp add: load_def)
    show "matchesKey seg (Value (fst s ! (?cs ! k)))" using keys[OF k] by simp
    show "recurseMap_entry value tail visit k s = (Return None, s')" by (rule entry)
  next
    fix index assume a: "index \<in> set [0..<k]" "index mod 2 = 0"
    then have "index < length ?cs" "index \<noteq> k" using k(1) by auto
    then show "\<exists>kn. load (fst s) (?cs ! index) = Some kn \<and> \<not> matchesKey seg (Value kn)"
      using keys[of index] a(2) by (simp add: load_def)
  next
    fix index assume a: "index \<in> set [Suc k..<length ?cs]" "index mod 2 = 0"
    then have b: "k < index" "index < length ?cs" by auto
    then have "\<not> matchesKey seg (Value (fst s ! (?cs ! index)))" using keys[OF b(2) a(2)] by simp
    then show "\<exists>kn. load (fst s') (?cs ! index) = Some kn \<and> \<not> matchesKey seg (Value kn)"
      using post[OF b a(2)] by (simp add: load_def)
  qed
  then have "visitMatchingEntries fst (\<lambda>_. ?cs) seg (recurseMap_entry value tail visit) s
      = (Return (True, None), s')"
    using upt_split3[OF k(1)] by (simp add: visitMatchingEntries_def)
  then show ?thesis using nd by (simp add: recurseMap_def)
qed

text \<open>The entry callback when the child already has the kind the tail asks for.\<close>
lemma recurseMap_entry_same:
  assumes "a < length h" "i + 1 < length (Content (h ! a))"
    and "Content (h ! a) ! (i + 1) = c" "c < length h"
    and "guessKind tail (Kind (h ! c)) = Kind (h ! c)"
  shows "recurseMap_entry a tail visit i (h, u) = visit c (h, u)"
proof -
  have "(Content (h ! a))[i + 1 := c] = Content (h ! a)" using assms(3) by (metis list_update_id)
  then have "h[a := (h ! a)\<lparr>Content := (Content (h ! a))[i + 1 := c]\<rparr>] = h" by simp
  then show ?thesis using assms getOrReplace_same[of c h "Kind (h ! c)"]
    by (simp add: recurseMap_entry_def load_def)
qed

lemma recurseArray_same:
  assumes "a < length h" "ParseInt seg = Inr idx" "0 \<le> idx" "idx < int (length (Content (h ! a)))"
    and "Content (h ! a) ! nat idx = c" "c < length h"
    and "guessKind tail (Kind (h ! c)) = Kind (h ! c)"
  shows "recurseArray a seg tail visit (h, u) = visit c (h, u)"
proof -
  have "(Content (h ! a))[nat idx := c] = Content (h ! a)" using assms(5) by (metis list_update_id)
  then have "h[a := (h ! a)\<lparr>Content := (Content (h ! a))[nat idx := c]\<rparr>] = h" by simp
  then show ?thesis using assms getOrReplace_same[of c h "Kind (h ! c)"]
    by (simp add: recurseArray_def load_def)
qed

text \<open>Coercing the child in slot i: the heap that the child is then visited on.\<close>
lemma coerce_slot:
  assumes f: "isForest h" and a: "a < length h" and i: "i < length (Content (h ! a))"
    and ad: "if Kind (h ! (Content (h ! a) ! i)) = guessKind tail (Kind (h ! (Content (h ! a) ! i)))
             then addressable h (Content (h ! a) ! i) tail else creatable tail"
  obtains c' hc h1 where
    "getOrReplace (Content (h ! a) ! i) (guessKind tail (Kind (h ! (Content (h ! a) ! i)))) h = (Return c', hc)"
    "h1 = hc[a := (h ! a)\<lparr>Content := (Content (h ! a))[i := c']\<rparr>]"
    "isForest h1" "addressable h1 c' tail" "length h \<le> length h1"
    "\<And>p. p < length h \<Longrightarrow> p \<noteq> a \<Longrightarrow> h1 ! p = h ! p"
    "\<And>p. length h \<le> p \<Longrightarrow> p < length h1 \<Longrightarrow> Content (h1 ! p) = []"
    "guessKind tail (Kind (h1 ! c')) = Kind (h1 ! c')"
    "c' \<in> set (Content (h ! a)) \<or> length h \<le> c'" "c' < length h1" "a < c'"
proof -
  let ?cs = "Content (h ! a)"
  let ?c = "?cs ! i"
  let ?g = "guessKind tail (Kind (h ! ?c))"
  have cin: "?c \<in> set ?cs" using i by simp
  have cl: "a < ?c" "?c < length h" using isForest_child[OF f a cin] by simp_all
  show thesis
  proof (cases "Kind (h ! ?c) = ?g")
    case True
    have e: "h[a := (h ! a)\<lparr>Content := ?cs[i := ?c]\<rparr>] = h" by simp
    show thesis
    proof (rule that[of ?c h h])
      show "getOrReplace ?c ?g h = (Return ?c, h)" using getOrReplace_same[OF cl(2)] True by simp
      show "h = h[a := (h ! a)\<lparr>Content := ?cs[i := ?c]\<rparr>]" using e by simp
      show "isForest h" by (rule f)
      show "addressable h ?c tail" using ad True by simp
      show "guessKind tail (Kind (h ! ?c)) = Kind (h ! ?c)" using True by simp
      show "?c \<in> set ?cs \<or> length h \<le> ?c" using cin by simp
    qed (use cl in simp_all)
  next
    case False
    define hc where "hc = h @ [zeroNode\<lparr>Kind := ?g\<rparr>]"
    define h1 where "h1 = hc[a := (h ! a)\<lparr>Content := ?cs[i := length h]\<rparr>]"
    have len: "length h1 = Suc (length h)" by (simp add: h1_def hc_def)
    have old: "h1 ! p = h ! p" if "p < length h" "p \<noteq> a" for p
      using that by (simp add: h1_def hc_def nth_append)
    have ha: "h1 ! a = (h ! a)\<lparr>Content := ?cs[i := length h]\<rparr>"
      using a by (simp add: h1_def hc_def)
    have hn: "h1 ! length h = zeroNode\<lparr>Kind := ?g\<rparr>"
      using a by (simp add: h1_def hc_def nth_append)
    have new: "Content (h1 ! p) = []" if "length h \<le> p" "p < length h1" for p
    proof -
      have "p = length h" using that len by simp
      then show ?thesis using hn by (simp add: zeroNode_def)
    qed
    have cr: "creatable tail" using ad False by simp
    have gd: "?g \<noteq> DocumentNode"
    proof (cases tail)
      case Nil
      then show ?thesis using False by (simp add: guessKind_Nil split: if_splits)
    next
      case (Cons seg tail')
      then show ?thesis using cr guessKind_creatable[of seg tail'] by simp
    qed
    have nin: "length h \<notin> set ?cs" using isForest_child[OF f a] by blast
    show thesis
    proof (rule that[of "length h" hc h1])
      show "getOrReplace ?c ?g h = (Return (length h), hc)"
        using getOrReplace_new[OF cl(2) False] by (simp add: hc_def)
      show "h1 = hc[a := (h ! a)\<lparr>Content := ?cs[i := length h]\<rparr>]" by (rule h1_def)
      show "isForest h1"
      proof (rule isForest_extend[OF f a])
        show "length h \<le> length h1" using len by simp
        show "\<And>p. p < length h \<Longrightarrow> p \<noteq> a \<Longrightarrow> Content (h1 ! p) = Content (h ! p)" using old by simp
        show "\<And>p. length h \<le> p \<Longrightarrow> p < length h1 \<Longrightarrow> Content (h1 ! p) = []" using new by simp
        have "set (?cs[i := length h]) \<subseteq> insert (length h) (set ?cs)"
          by (rule set_update_subset_insert)
        then show "set (Content (h1 ! a)) \<subseteq> set ?cs \<union> {length h..<length h1}"
          using ha len by auto
        show "distinct (Content (h1 ! a))"
          using ha isForest_distinct[OF f a] nin by (simp add: distinct_list_update)
      qed
      show "addressable h1 (length h) tail"
      proof (rule addressable_fresh[OF cr, where ?k0.0 = "Kind (h ! ?c)"])
        show "length h < length h1" using len by simp
        show "Content (h1 ! length h) = []" using hn by (simp add: zeroNode_def)
        show "Kind (h1 ! length h) = ?g" using hn by simp
        show "Kind (h1 ! length h) \<noteq> DocumentNode" using hn gd by simp
      qed
      show "length h \<le> length h1" using len by simp
      show "\<And>p. p < length h \<Longrightarrow> p \<noteq> a \<Longrightarrow> h1 ! p = h ! p" using old by simp
      show "\<And>p. length h \<le> p \<Longrightarrow> p < length h1 \<Longrightarrow> Content (h1 ! p) = []" using new by simp
      show "guessKind tail (Kind (h1 ! length h)) = Kind (h1 ! length h)"
        using hn guessKind_idem by simp
      show "length h \<in> set ?cs \<or> length h \<le> length h" by simp
      show "length h < length h1" using len by simp
      show "a < length h" by (rule a)
    qed
  qed
qed

lemma updateReaches_Nil:
  assumes "addressable h a []" "Kind v \<noteq> DocumentNode"
  shows "updateReaches v h a [] a (h[a := assignFrom v (h ! a)])"
proof -
  have a: "a < length h" "Kind (h ! a) \<noteq> DocumentNode" using assms(1) by simp_all
  have 1: "Visit a [] (Update_visitor v) (h, ()) = (Return None, (h[a := assignFrom v (h ! a)], ()))"
    using a by (simp add: realValue_plain Update_visitor_def load_def)
  have 2: "Visit a [] Get_visitor (h[a := assignFrom v (h ! a)], ms)
             = (Return None, (h[a := assignFrom v (h ! a)], ms @ [a]))" for ms
    using a assms(2) by (simp add: realValue_plain Get_visitor_def Kind_assignFrom)
  have 3: "\<forall>b<length h. b \<notin> touched h a \<longrightarrow> h[a := assignFrom v (h ! a)] ! b = h ! b"
    using touched_self[of a h] by (metis nth_list_update_neq)
  have 4: "updatedFrom (h[a := assignFrom v (h ! a)] ! a) v"
    "Kind (h[a := assignFrom v (h ! a)] ! a) = Kind v"
    using a by (simp_all add: updatedFrom_assignFrom Kind_assignFrom)
  show ?thesis
    unfolding updateReaches_def
    by (intro conjI allI) (use 1 2 3 4 a in simp_all)
qed

text \<open>What the parent needs to know about the traversal from the child.\<close>
lemma child_facts:
  assumes f1: "isForest h1" and a: "a < length h1" and c: "c' \<in> set (Content (h1 ! a))"
    and g: "guessKind tail (Kind (h1 ! c')) = Kind (h1 ! c')"
    and v: "Kind v \<noteq> 0"
    and u: "updateReaches v h1 c' tail m h'"
  shows "h' ! a = h1 ! a"
    and "\<And>b. b \<in> set (Content (h1 ! a)) \<Longrightarrow> b \<noteq> c' \<Longrightarrow> h' ! b = h1 ! b"
    and "guessKind tail (Kind (h' ! c')) = Kind (h' ! c')"
    and "length h1 \<le> length h'"
proof -
  have fr: "\<forall>b<length h1. b \<notin> touched h1 c' \<longrightarrow> h' ! b = h1 ! b"
    using u by (simp add: updateReaches_def)
  show "h' ! a = h1 ! a" by (rule descend_frame(1)[OF f1 a c fr])
  show "\<And>b. b \<in> set (Content (h1 ! a)) \<Longrightarrow> b \<noteq> c' \<Longrightarrow> h' ! b = h1 ! b"
    by (rule descend_frame(2)[OF f1 a c fr])
  have k: "Kind (h' ! c') = (if tail = [] then Kind v else Kind (h1 ! c'))"
    using u by (simp add: updateReaches_def)
  show "guessKind tail (Kind (h' ! c')) = Kind (h' ! c')"
    using k g v by (simp add: guessKind_Nil)
  show "length h1 \<le> length h'" using u by (simp add: updateReaches_def)
qed

lemma updateReaches_frame:
  assumes a: "a < length h"
    and len: "length h \<le> length h1"
    and old: "\<And>p. p < length h \<Longrightarrow> p \<noteq> a \<Longrightarrow> h1 ! p = h ! p"
    and new: "\<And>p. length h \<le> p \<Longrightarrow> p < length h1 \<Longrightarrow> Content (h1 ! p) = []"
    and c: "a < c'" "c' \<in> set (Content (h ! a)) \<or> length h \<le> c'"
    and u: "updateReaches v h1 c' tail m h'"
  shows "\<forall>b<length h. b \<notin> touched h a \<longrightarrow> h' ! b = h ! b"
proof (intro allI impI)
  fix b assume b: "b < length h" "b \<notin> touched h a"
  have fr: "\<forall>b<length h1. b \<notin> touched h1 c' \<longrightarrow> h' ! b = h1 ! b"
    using u by (simp add: updateReaches_def)
  have 1: "b \<notin> touched h1 c'" by (rule touched_descend(1)[OF a b len old new c])
  have 2: "h1 ! b = h ! b" by (rule touched_descend(2)[OF a b len old new c])
  have "b < length h1" using b(1) len by simp
  then show "h' ! b = h ! b" using fr 1 2 by simp
qed

lemma even_slot: "k < n \<Longrightarrow> k mod 2 = 0 \<Longrightarrow> n mod 2 = 0 \<Longrightarrow> k + 1 < (n::nat)"
  by presburger

lemma step_map_match:
  assumes f: "isForest h" and a: "a < length h" and K: "Kind (h ! a) = MappingNode"
    and seg: "seg \<noteq> ''*''" and ev: "length (Content (h ! a)) mod 2 = 0"
    and m: "matchingEntries h (Content (h ! a)) seg = [k]"
    and ad: "if Kind (h ! (Content (h ! a) ! (k + 1))) = guessKind tail (Kind (h ! (Content (h ! a) ! (k + 1))))
             then addressable h (Content (h ! a) ! (k + 1)) tail else creatable tail"
    and v: "Kind v \<noteq> 0"
    and IH: "\<And>h1 c'. isForest h1 \<Longrightarrow> addressable h1 c' tail \<Longrightarrow> \<exists>m h'. updateReaches v h1 c' tail m h'"
  shows "\<exists>m h'. updateReaches v h a (seg # tail) m h'"
proof -
  let ?cs = "Content (h ! a)"
  note k = matchingEntries_single[OF m]
  have k1: "k + 1 < length ?cs" using even_slot[OF k(1,2) ev] .
  have sub: "c < length h" "a < c" if "c \<in> set ?cs" for c using isForest_child[OF f a that] by simp_all
  from coerce_slot[OF f a k1 ad] obtain c' hc h1 where
    gr: "getOrReplace (?cs ! (k + 1)) (guessKind tail (Kind (h ! (?cs ! (k + 1))))) h = (Return c', hc)"
    and h1: "h1 = hc[a := (h ! a)\<lparr>Content := ?cs[k + 1 := c']\<rparr>]"
    and f1: "isForest h1" and ad1: "addressable h1 c' tail" and len1: "length h \<le> length h1"
    and old: "\<And>p. p < length h \<Longrightarrow> p \<noteq> a \<Longrightarrow> h1 ! p = h ! p"
    and new: "\<And>p. length h \<le> p \<Longrightarrow> p < length h1 \<Longrightarrow> Content (h1 ! p) = []"
    and g1: "guessKind tail (Kind (h1 ! c')) = Kind (h1 ! c')"
    and cor: "c' \<in> set ?cs \<or> length h \<le> c'" and cl: "c' < length h1" and ac: "a < c'"
    by blast
  from IH[OF f1 ad1] obtain m' h' where u: "updateReaches v h1 c' tail m' h'" by blast
  let ?cs1 = "?cs[k + 1 := c']"
  have a1: "a < length h1" using a len1 by simp
  have ha1: "h1 ! a = (h ! a)\<lparr>Content := ?cs1\<rparr>" using a1 h1 by simp
  have C1: "Content (h1 ! a) = ?cs1" using ha1 by simp
  have cin: "c' \<in> set (Content (h1 ! a))" using C1 k1 by (simp add: set_update_memI)
  note cf = child_facts[OF f1 a1 cin g1 v u]
  have ha': "h' ! a = (h ! a)\<lparr>Content := ?cs1\<rparr>" using cf(1) ha1 by simp
  have len': "length h \<le> length h'" using len1 cf(4) by simp
  have d1: "distinct ?cs1" using isForest_distinct[OF f1 a1] C1 by simp
  have sib: "h' ! (?cs ! j) = h ! (?cs ! j) \<and> ?cs ! j < length h" if j: "j < length ?cs" "j \<noteq> k + 1" for j
  proof -
    have e: "?cs1 ! j = ?cs ! j" using j by simp
    have "(?cs1 ! j = ?cs1 ! (k + 1)) = (j = k + 1)"
      by (rule nth_eq_iff_index_eq[OF d1]) (use j k1 in simp_all)
    then have ne: "?cs ! j \<noteq> c'" using j k1 by simp
    have "?cs ! j \<in> set (Content (h1 ! a))" using nth_mem[of j ?cs1] j by (simp add: C1)
    then have 1: "h' ! (?cs ! j) = h1 ! (?cs ! j)" using cf(2) ne by simp
    have 2: "?cs ! j < length h" "a < ?cs ! j" using sub[of "?cs ! j"] j by simp_all
    then have "h1 ! (?cs ! j) = h ! (?cs ! j)" using old by simp
    then show ?thesis using 1 2 by simp
  qed
  have keys: "?cs ! j < length h \<and> (matchesKey seg (Value (h ! (?cs ! j))) \<longleftrightarrow> j = k)"
    if "j < length ?cs" "j mod 2 = 0" for j
    using keys_of_single[OF m _ that] sub by simp
  have odd: "j \<noteq> k + 1" if "j mod 2 = 0" for j using that k(2) by presburger
  \<comment> \<open>Update\<close>
  have entryU: "recurseMap_entry a tail (\<lambda>child. Visit child tail (Update_visitor v)) k (h, ())
                  = (Return None, (h', ()))"
  proof -
    have "recurseMap_entry a tail (\<lambda>child. Visit child tail (Update_visitor v)) k (h, ())
           = Visit c' tail (Update_visitor v) (h1, ())"
      using a k1 sub[of "?cs ! (k + 1)"] gr h1 by (simp add: recurseMap_entry_def load_def)
    then show ?thesis using u by (simp add: updateReaches_def)
  qed
  have "recurseMap a seg tail (\<lambda>child. Visit child tail (Update_visitor v)) (h, ()) = (Return None, (h', ()))"
  proof (rule recurseMap_at[where nd = "h ! a" and k = k])
    show "load (fst (h, ())) a = Some (h ! a)" using a by (simp add: load_def)
    show "k < length ?cs" "k mod 2 = 0" using k by simp_all
    show "recurseMap_entry a tail (\<lambda>child. Visit child tail (Update_visitor v)) k (h, ())
            = (Return None, (h', ()))" by (rule entryU)
  next
    fix j assume "j < length ?cs" "j mod 2 = 0"
    then show "?cs ! j < length (fst (h, ())) \<and>
               (matchesKey seg (Value (fst (h, ()) ! (?cs ! j))) \<longleftrightarrow> j = k)"
      using keys by simp
  next
    fix j assume j: "k < j" "j < length ?cs" "j mod 2 = 0"
    show "?cs ! j < length (fst (h', ())) \<and>
          Value (fst (h', ()) ! (?cs ! j)) = Value (fst (h, ()) ! (?cs ! j))"
      using sib[OF j(2) odd[OF j(3)]] len' by simp
  qed
  then have U: "Visit a (seg # tail) (Update_visitor v) (h, ()) = (Return None, (h', ()))"
    using a K seg by (simp add: realValue_plain recurse_def load_def)
  \<comment> \<open>Get\<close>
  have a': "a < length h'" using a len' by simp
  have K': "Kind (h' ! a) = MappingNode" using ha' K by simp
  have C': "Content (h' ! a) = ?cs1" using ha' by simp
  have cl': "c' < length h'" using cl cf(4) by simp
  have G: "Visit a (seg # tail) Get_visitor (h', ms) = (Return None, (h', ms @ [m']))" for ms
  proof -
    have entryG: "recurseMap_entry a tail (\<lambda>child. Visit child tail Get_visitor) k (h', ms)
                    = (Return None, (h', ms @ [m']))"
    proof -
      have "recurseMap_entry a tail (\<lambda>child. Visit child tail Get_visitor) k (h', ms)
              = Visit c' tail Get_visitor (h', ms)"
        by (rule recurseMap_entry_same[OF a' _ _ cl' cf(3)]) (use C' k1 in simp_all)
      then show ?thesis using u by (simp add: updateReaches_def)
    qed
    have "recurseMap a seg tail (\<lambda>child. Visit child tail Get_visitor) (h', ms)
            = (Return None, (h', ms @ [m']))"
    proof (rule recurseMap_at[where nd = "h' ! a" and k = k])
      show "load (fst (h', ms)) a = Some (h' ! a)" using a' by (simp add: load_def)
      show "k < length (Content (h' ! a))" "k mod 2 = 0" using k C' by simp_all
      show "recurseMap_entry a tail (\<lambda>child. Visit child tail Get_visitor) k (h', ms)
              = (Return None, (h', ms @ [m']))" by (rule entryG)
    next
      fix j assume j: "j < length (Content (h' ! a))" "j mod 2 = 0"
      then have jl: "j < length ?cs" using C' by simp
      have e: "Content (h' ! a) ! j = ?cs ! j" using C' odd[OF j(2)] by simp
      show "Content (h' ! a) ! j < length (fst (h', ms)) \<and>
            (matchesKey seg (Value (fst (h', ms) ! (Content (h' ! a) ! j))) \<longleftrightarrow> j = k)"
        using e sib[OF jl odd[OF j(2)]] keys[OF jl j(2)] len' by simp
    next
      fix j assume j: "k < j" "j < length (Content (h' ! a))" "j mod 2 = 0"
      then have jl: "j < length ?cs" using C' by simp
      have e: "Content (h' ! a) ! j = ?cs ! j" using C' odd[OF j(3)] by simp
      show "Content (h' ! a) ! j < length (fst (h', ms @ [m'])) \<and>
            Value (fst (h', ms @ [m']) ! (Content (h' ! a) ! j)) = Value (fst (h', ms) ! (Content (h' ! a) ! j))"
        using e sib[OF jl odd[OF j(3)]] len' by simp
    qed
    then show ?thesis using a' K' seg by (simp add: realValue_plain recurse_def load_def)
  qed
  have fr: "\<forall>b<length h. b \<notin> touched h a \<longrightarrow> h' ! b = h ! b"
    by (rule updateReaches_frame[OF a len1 old new ac cor u])
  have "updateReaches v h a (seg # tail) m' h'"
    unfolding updateReaches_def
    by (intro conjI allI) (use U G fr len' ha' u in \<open>simp_all add: updateReaches_def\<close>)
  then show ?thesis by blast
qed

lemma step_seq:
  assumes f: "isForest h" and a: "a < length h" and K: "Kind (h ! a) = SequenceNode"
    and p: "ParseInt seg = Inr idx" and i0: "0 \<le> idx" and il: "idx < int (length (Content (h ! a)))"
    and ad: "if Kind (h ! (Content (h ! a) ! nat idx)) = guessKind tail (Kind (h ! (Content (h ! a) ! nat idx)))
             then addressable h (Content (h ! a) ! nat idx) tail else creatable tail"
    and v: "Kind v \<noteq> 0"
    and IH: "\<And>h1 c'. isForest h1 \<Longrightarrow> addressable h1 c' tail \<Longrightarrow> \<exists>m h'. updateReaches v h1 c' tail m h'"
  shows "\<exists>m h'. updateReaches v h a (seg # tail) m h'"
proof -
  let ?cs = "Content (h ! a)"
  let ?i = "nat idx"
  have i: "?i < length ?cs" using i0 il by simp
  have seg: "seg \<noteq> ''*''" "seg \<noteq> ''+''" using p ParseInt_star ParseInt_plus by auto
  have sub: "c < length h" "a < c" if "c \<in> set ?cs" for c using isForest_child[OF f a that] by simp_all
  from coerce_slot[OF f a i ad] obtain c' hc h1 where
    gr: "getOrReplace (?cs ! ?i) (guessKind tail (Kind (h ! (?cs ! ?i)))) h = (Return c', hc)"
    and h1: "h1 = hc[a := (h ! a)\<lparr>Content := ?cs[?i := c']\<rparr>]"
    and f1: "isForest h1" and ad1: "addressable h1 c' tail" and len1: "length h \<le> length h1"
    and old: "\<And>p. p < length h \<Longrightarrow> p \<noteq> a \<Longrightarrow> h1 ! p = h ! p"
    and new: "\<And>p. length h \<le> p \<Longrightarrow> p < length h1 \<Longrightarrow> Content (h1 ! p) = []"
    and g1: "guessKind tail (Kind (h1 ! c')) = Kind (h1 ! c')"
    and cor: "c' \<in> set ?cs \<or> length h \<le> c'" and cl: "c' < length h1" and ac: "a < c'"
    by blast
  from IH[OF f1 ad1] obtain m' h' where u: "updateReaches v h1 c' tail m' h'" by blast
  let ?cs1 = "?cs[?i := c']"
  have a1: "a < length h1" using a len1 by simp
  have ha1: "h1 ! a = (h ! a)\<lparr>Content := ?cs1\<rparr>" using a1 h1 by simp
  have C1: "Content (h1 ! a) = ?cs1" using ha1 by simp
  have cin: "c' \<in> set (Content (h1 ! a))" using C1 i by (simp add: set_update_memI)
  note cf = child_facts[OF f1 a1 cin g1 v u]
  have ha': "h' ! a = (h ! a)\<lparr>Content := ?cs1\<rparr>" using cf(1) ha1 by simp
  have len': "length h \<le> length h'" using len1 cf(4) by simp
  have "recurseArray a seg tail (\<lambda>child. Visit child tail (Update_visitor v)) (h, ())
           = Visit c' tail (Update_visitor v) (h1, ())"
    using a i p i0 il sub[of "?cs ! ?i"] gr h1 by (simp add: recurseArray_def load_def)
  then have U: "Visit a (seg # tail) (Update_visitor v) (h, ()) = (Return None, (h', ()))"
    using a K seg u by (simp add: realValue_plain recurse_def load_def updateReaches_def)
  have a': "a < length h'" using a len' by simp
  have K': "Kind (h' ! a) = SequenceNode" using ha' K by simp
  have C': "Content (h' ! a) = ?cs1" using ha' by simp
  have cl': "c' < length h'" using cl cf(4) by simp
  have G: "Visit a (seg # tail) Get_visitor (h', ms) = (Return None, (h', ms @ [m']))" for ms
  proof -
    have "recurseArray a seg tail (\<lambda>child. Visit child tail Get_visitor) (h', ms)
              = Visit c' tail Get_visitor (h', ms)"
      by (rule recurseArray_same[OF a' p i0 _ _ cl' cf(3)]) (use C' i il in simp_all)
    then show ?thesis
      using a' K' seg u by (simp add: realValue_plain recurse_def load_def updateReaches_def)
  qed
  have fr: "\<forall>b<length h. b \<notin> touched h a \<longrightarrow> h' ! b = h ! b"
    by (rule updateReaches_frame[OF a len1 old new ac cor u])
  have "updateReaches v h a (seg # tail) m' h'"
    unfolding updateReaches_def
    by (intro conjI allI) (use U G fr len' ha' u in \<open>simp_all add: updateReaches_def\<close>)
  then show ?thesis by blast
qed

lemma step_map_create:
  assumes f: "isForest h" and a: "a < length h" and K: "Kind (h ! a) = MappingNode"
    and seg: "seg \<noteq> ''*''" and ev: "length (Content (h ! a)) mod 2 = 0"
    and m: "matchingEntries h (Content (h ! a)) seg = []"
    and cr: "creatable tail"
    and v: "Kind v \<noteq> 0"
    and IH: "\<And>h1 c'. isForest h1 \<Longrightarrow> addressable h1 c' tail \<Longrightarrow> \<exists>m h'. updateReaches v h1 c' tail m h'"
  shows "\<exists>m h'. updateReaches v h a (seg # tail) m h'"
proof -
  let ?cs = "Content (h ! a)"
  let ?n = "length ?cs"
  let ?l = "length h"
  let ?cs1 = "?cs @ [?l, ?l + 1]"
  define keyN where "keyN = zeroNode\<lparr>Value := seg, Kind := ScalarNode\<rparr>"
  define valN where "valN = zeroNode\<lparr>Kind := guessKind tail 0\<rparr>"
  define h1 where "h1 = (h @ [keyN, valN])[a := (h ! a)\<lparr>Content := ?cs1\<rparr>]"
  have sub: "c < length h" "a < c" if "c \<in> set ?cs" for c using isForest_child[OF f a that] by simp_all
  have len1: "length h1 = ?l + 2" by (simp add: h1_def)
  have old: "h1 ! p = h ! p" if "p < length h" "p \<noteq> a" for p
    using that by (simp add: h1_def nth_append)
  have ha1: "h1 ! a = (h ! a)\<lparr>Content := ?cs1\<rparr>" using a by (simp add: h1_def)
  have C1: "Content (h1 ! a) = ?cs1" using ha1 by simp
  have hk: "h1 ! ?l = keyN" using a by (simp add: h1_def nth_append)
  have hv: "h1 ! (?l + 1) = valN" using a by (simp add: h1_def nth_append)
  have new: "Content (h1 ! p) = []" if "length h \<le> p" "p < length h1" for p
  proof -
    have "p = ?l \<or> p = ?l + 1" using that len1 by auto
    then show ?thesis using hk hv by (auto simp: keyN_def valN_def zeroNode_def)
  qed
  have nin: "?l \<notin> set ?cs" "?l + 1 \<notin> set ?cs" using sub by fastforce+
  have f1: "isForest h1"
  proof (rule isForest_extend[OF f a])
    show "length h \<le> length h1" using len1 by simp
    show "\<And>p. p < length h \<Longrightarrow> p \<noteq> a \<Longrightarrow> Content (h1 ! p) = Content (h ! p)" using old by simp
    show "\<And>p. length h \<le> p \<Longrightarrow> p < length h1 \<Longrightarrow> Content (h1 ! p) = []" using new by simp
    show "set (Content (h1 ! a)) \<subseteq> set ?cs \<union> {length h..<length h1}" using C1 len1 by auto
    show "distinct (Content (h1 ! a))" using C1 isForest_distinct[OF f a] nin by simp
  qed
  have gd: "guessKind tail 0 \<noteq> DocumentNode"
  proof (cases tail)
    case Nil
    then show ?thesis by (simp add: guessKind_Nil)
  next
    case (Cons s t)
    then show ?thesis using cr guessKind_creatable[of s t] by simp
  qed
  have ad1: "addressable h1 (?l + 1) tail"
  proof (rule addressable_fresh[OF cr, where ?k0.0 = 0])
    show "?l + 1 < length h1" using len1 by simp
    show "Content (h1 ! (?l + 1)) = []" using hv by (simp add: valN_def zeroNode_def)
    show "Kind (h1 ! (?l + 1)) = guessKind tail 0" using hv by (simp add: valN_def)
    show "Kind (h1 ! (?l + 1)) \<noteq> DocumentNode" using hv gd by (simp add: valN_def)
  qed
  from IH[OF f1 ad1] obtain m' h' where u: "updateReaches v h1 (?l + 1) tail m' h'" by blast
  have a1: "a < length h1" using a len1 by simp
  have cin: "?l + 1 \<in> set (Content (h1 ! a))" using C1 by simp
  have g1: "guessKind tail (Kind (h1 ! (?l + 1))) = Kind (h1 ! (?l + 1))"
    using hv guessKind_idem by (simp add: valN_def)
  note cf = child_facts[OF f1 a1 cin g1 v u]
  have ha': "h' ! a = (h ! a)\<lparr>Content := ?cs1\<rparr>" using cf(1) ha1 by simp
  have len': "length h + 2 \<le> length h'" using len1 cf(4) by simp
  have sib: "h' ! (?cs ! j) = h ! (?cs ! j) \<and> ?cs ! j < length h" if j: "j < ?n" for j
  proof -
    have 2: "?cs ! j < length h" "a < ?cs ! j" using sub[of "?cs ! j"] j by simp_all
    have "?cs ! j \<in> set (Content (h1 ! a))" using C1 j by simp
    then have "h' ! (?cs ! j) = h1 ! (?cs ! j)" using cf(2) 2 by simp
    then show ?thesis using old 2 by simp
  qed
  have key': "h' ! ?l = keyN"
  proof -
    have "?l \<in> set (Content (h1 ! a))" using C1 by simp
    then show ?thesis using cf(2)[of ?l] hk by simp
  qed
  \<comment> \<open>Update\<close>
  have "recurseMap a seg tail (\<lambda>child. Visit child tail (Update_visitor v)) (h, ())
          = Visit (?l + 1) tail (Update_visitor v) (h1, ())"
    using recurseMap_no_match[of "(h, ())" a "h ! a" seg tail "\<lambda>child. Visit child tail (Update_visitor v)"]
      a m sub(1) by (simp add: load_def h1_def keyN_def valN_def subset_iff)
  then have U: "Visit a (seg # tail) (Update_visitor v) (h, ()) = (Return None, (h', ()))"
    using a K seg u by (simp add: realValue_plain recurse_def load_def updateReaches_def)
  \<comment> \<open>Get\<close>
  have a': "a < length h'" using a len' by simp
  have K': "Kind (h' ! a) = MappingNode" using ha' K by simp
  have C': "Content (h' ! a) = ?cs1" using ha' by simp
  have cl': "?l + 1 < length h'" using len' by simp
  have G: "Visit a (seg # tail) Get_visitor (h', ms) = (Return None, (h', ms @ [m']))" for ms
  proof -
    have entryG: "recurseMap_entry a tail (\<lambda>child. Visit child tail Get_visitor) ?n (h', ms)
                    = (Return None, (h', ms @ [m']))"
    proof -
      have "recurseMap_entry a tail (\<lambda>child. Visit child tail Get_visitor) ?n (h', ms)
              = Visit (?l + 1) tail Get_visitor (h', ms)"
        by (rule recurseMap_entry_same[OF a' _ _ cl' cf(3)]) (use C' in \<open>simp_all add: nth_append\<close>)
      then show ?thesis using u by (simp add: updateReaches_def)
    qed
    have "recurseMap a seg tail (\<lambda>child. Visit child tail Get_visitor) (h', ms)
            = (Return None, (h', ms @ [m']))"
    proof (rule recurseMap_at[where nd = "h' ! a" and k = ?n])
      show "load (fst (h', ms)) a = Some (h' ! a)" using a' by (simp add: load_def)
      show "?n < length (Content (h' ! a))" "?n mod 2 = 0" using ev C' by simp_all
      show "recurseMap_entry a tail (\<lambda>child. Visit child tail Get_visitor) ?n (h', ms)
              = (Return None, (h', ms @ [m']))" by (rule entryG)
    next
      fix j assume j: "j < length (Content (h' ! a))" "j mod 2 = 0"
      have jn: "j \<noteq> ?n + 1" using j(2) ev by presburger
      then have "j < ?n \<or> j = ?n" using j(1) C' by auto
      then show "Content (h' ! a) ! j < length (fst (h', ms)) \<and>
            (matchesKey seg (Value (fst (h', ms) ! (Content (h' ! a) ! j))) \<longleftrightarrow> j = ?n)"
      proof
        assume jl: "j < ?n"
        then have e: "Content (h' ! a) ! j = ?cs ! j" using C' by (simp add: nth_append)
        have lt: "?cs ! j < length h'" using sib[OF jl] len' by simp
        have nm: "\<not> matchesKey seg (Value (h ! (?cs ! j)))"
          using keys_of_none[OF m _ jl j(2)] sub(1) by simp
        show ?thesis using e sib[OF jl] lt nm jl by simp
      next
        assume je: "j = ?n"
        then have e: "Content (h' ! a) ! j = ?l" using C' by (simp add: nth_append)
        show ?thesis using e je key' len' matchesKey_refl by (simp add: keyN_def)
      qed
    next
      fix j assume j: "?n < j" "j < length (Content (h' ! a))" "j mod 2 = 0"
      have "j \<noteq> ?n + 1" using j(3) ev by presburger
      then have False using j C' by simp
      then show "Content (h' ! a) ! j < length (fst (h', ms @ [m'])) \<and>
            Value (fst (h', ms @ [m']) ! (Content (h' ! a) ! j)) = Value (fst (h', ms) ! (Content (h' ! a) ! j))"
        by simp
    qed
    then show ?thesis using a' K' seg by (simp add: realValue_plain recurse_def load_def)
  qed
  have fr: "\<forall>b<length h. b \<notin> touched h a \<longrightarrow> h' ! b = h ! b"
  proof (rule updateReaches_frame[OF a _ old new _ _ u])
    show "length h \<le> length h1" using len1 by simp
    show "a < ?l + 1" using a by simp
    show "?l + 1 \<in> set ?cs \<or> length h \<le> ?l + 1" by simp
  qed
  have "length h \<le> length h'" using len' by simp
  then have "updateReaches v h a (seg # tail) m' h'"
    unfolding updateReaches_def
    by (intro conjI allI) (use U G fr ha' u in \<open>simp_all add: updateReaches_def\<close>)
  then show ?thesis by blast
qed

lemma addressable_node:
  assumes "addressable h a path"
  shows "a < length h" "Kind (h ! a) \<noteq> DocumentNode"
  using assms by (cases path; auto split: if_splits)+

lemma updateReaches_ex:
  assumes v: "Kind v \<noteq> 0" "Kind v \<noteq> DocumentNode"
  shows "isForest h \<Longrightarrow> addressable h a path \<Longrightarrow> \<exists>m h'. updateReaches v h a path m h'"
proof (induction path arbitrary: h a)
  case Nil
  then show ?case using updateReaches_Nil[OF _ v(2)] by blast
next
  case (Cons seg tail)
  note f = Cons.prems(1) and ad = Cons.prems(2)
  have a: "a < length h" using ad by simp
  note IH = Cons.IH
  consider (map) "Kind (h ! a) = MappingNode" | (seq) "Kind (h ! a) = SequenceNode"
    using ad by (auto split: if_splits)
  then show ?case
  proof cases
    case map
    then have 1: "seg \<noteq> ''*''" "length (Content (h ! a)) mod 2 = 0" using ad by simp_all
    show ?thesis
    proof (cases "matchingEntries h (Content (h ! a)) seg")
      case Nil
      then have "creatable tail" using ad map by simp
      then show ?thesis using step_map_create[OF f a map 1 Nil _ v(1) IH] by blast
    next
      case (Cons k ks)
      then have ks: "ks = []" using ad map by (cases ks) simp_all
      then have m: "matchingEntries h (Content (h ! a)) seg = [k]" using Cons by simp
      have "if Kind (h ! (Content (h ! a) ! (k + 1))) = guessKind tail (Kind (h ! (Content (h ! a) ! (k + 1))))
             then addressable h (Content (h ! a) ! (k + 1)) tail else creatable tail"
        using ad map m by (simp add: Let_def)
      then show ?thesis using step_map_match[OF f a map 1 m _ v(1) IH] by blast
    qed
  next
    case seq
    then obtain idx where p: "ParseInt seg = Inr idx" using ad by (cases "ParseInt seg") simp_all
    then have i: "0 \<le> idx" "idx < int (length (Content (h ! a)))" using ad seq by simp_all
    have "if Kind (h ! (Content (h ! a) ! nat idx)) = guessKind tail (Kind (h ! (Content (h ! a) ! nat idx)))
             then addressable h (Content (h ! a) ! nat idx) tail else creatable tail"
      using ad seq p by (simp add: Let_def)
    then show ?thesis using step_seq[OF f a seq p i _ v(1) IH] by blast
  qed
qed

lemma Visit_root:
  assumes "realValue (fst s) root = Return rv" "realValue (fst s) rv = Return rv"
  shows "Visit root path vis s = Visit rv path vis s"
  using assms by (cases path) simp_all

subsection \<open>A route through nodes that exist, and Delete at its end\<close>



lemma guessKind_nonempty_kind: "tail \<noteq> [] \<Longrightarrow> guessKind tail k = k \<Longrightarrow> k = SequenceNode \<or> k = MappingNode"
  by (auto simp: guessKind_def split: if_splits)














subsection \<open>Delete on a mapping with more than one matching key\<close>

text \<open>
  Claim C1 says that \<^verbatim>\<open>Delete\<close> removes every pair of a mapping whose key matches
  the final segment, also when two or more keys match. The code does not: every
  removal is computed from \<^verbatim>\<open>original\<close>, whose length never changes, so each
  match yields a slice two shorter than the original, and the matches after the
  first are found in the array the earlier removals have shifted. On the mapping
  \<^verbatim>\<open>{x: 1, x: 2}\<close> the call \<^verbatim>\<open>Delete(root, ["x"])\<close> returns nil and leaves
  \<^verbatim>\<open>{x: 2}\<close>: the second pair, whose key matches, is still there.
\<close>

theorem Delete_duplicate_keys_leaves_match:
  "Delete 0 [''x''] doc_dup = (Return None, doc_dup[0 := mappingOf [3, 4]]) \<and>
   matchingEntries (doc_dup[0 := mappingOf [3, 4]]) [3, 4] ''x'' = [0]"
  by code_simp

subsection \<open>Delete with the empty path\<close>

text \<open>
  Claim C2 says that \<^verbatim>\<open>Delete\<close> with an empty path fails with an error value,
  before any traversal, and leaves the tree unchanged. The code has no test for the
  empty path: its first statement splits the path into
  \<^verbatim>\<open>path[len(path)-1]\<close> and \<^verbatim>\<open>path[:len(path)-1]\<close>, which panics. No error is
  returned. What holds is that the call panics with the run-time error
  \<^verbatim>\<open>slice bounds out of range\<close> before \<^verbatim>\<open>Visit\<close> is called, with the heap as
  it was.
\<close>

theorem Delete_empty_path_panics:
  "Delete rootNode [] h = (Panics SliceBoundsOutOfRange, h)"
  by (simp add: Delete_def)

text \<open>Claim C2 as stated fails: on the document \<^verbatim>\<open>{a: 1}\<close> no error is returned.\<close>

theorem Delete_empty_path_returns_no_error:
  "\<not> returnsError (fst (Delete 0 [] doc_a))"
  by (simp add: Delete_def returnsError_def)

subsection \<open>The splat over a mapping does not store the node it coerces to\<close>

text \<open>
  Claim C3 says that under the head segment \<^verbatim>\<open>*\<close> a value entry of the wrong
  kind is replaced, in the parent's \<^verbatim>\<open>Content\<close>, by a new empty node of the
  required kind, so that a change made through the splat shows in the tree.
  \<^verbatim>\<open>splatMap\<close> assigns the result of \<^verbatim>\<open>getOrReplace\<close> to its loop variable
  only (\<^verbatim>\<open>recurseMap\<close> and \<^verbatim>\<open>recurseArray\<close> assign it to the slot of
  \<^verbatim>\<open>Content\<close>). On \<^verbatim>\<open>{a: 1}\<close>, \<^verbatim>\<open>Update(root, ["*", "b"], 5)\<close> returns nil
  and builds the mapping \<^verbatim>\<open>{b: 5}\<close> in three new nodes that nothing points to: the
  three nodes of the document are what they were, and the root's
  \<^verbatim>\<open>Content\<close> still holds the scalar \<^verbatim>\<open>1\<close>.
\<close>

theorem splatMap_coercion_not_stored:
  "Update 0 [''*'', ''b''] (scalarOf ''5'') doc_a =
     (Return None, doc_a @ [mappingOf [4, 5], scalarOf ''b'', scalarOf ''5''])"
  by code_simp

subsection \<open>Delete, then Get\<close>




subsection \<open>A mapping without the key gets the key, also under Get\<close>

text \<open>
  Claim C5: when a mapping is traversed with a head segment other than \<^verbatim>\<open>*\<close> and
  none of its keys matches, the traversal appends to the mapping's \<^verbatim>\<open>Content\<close>
  a new scalar key node holding the head and a new value node of kind
  \<open>guessKind tail 0\<close>, and goes on to visit the new value node with the tail. This
  holds for every visitor; for \<^verbatim>\<open>Get\<close> it means that the query continues on a
  heap that is no longer the one it was given.
\<close>

theorem recurseMap_creates_missing_entry:
  assumes "realValue h root = Return value" and "load h value = Some nd"
    and "Kind nd = MappingNode" and "head \<noteq> ''*''"
    and "set (Content nd) \<subseteq> {..<length h}"
    and "matchingEntries h (Content nd) head = []"
  shows "let h' = (h @ [zeroNode\<lparr>Value := head, Kind := ScalarNode\<rparr>,
                        zeroNode\<lparr>Kind := guessKind tail 0\<rparr>])
                    [value := nd\<lparr>Content := Content nd @ [length h, length h + 1]\<rparr>]
         in Visit root (head # tail) visitor (h, c) = Visit (length h + 1) tail visitor (h', c) \<and>
            Get root (head # tail) h = Get (length h + 1) tail h' \<and>
            h' \<noteq> h"
proof -
  have v: "Visit root (head # tail) vis (h, c) = Visit (length h + 1) tail vis
       ((h @ [zeroNode\<lparr>Value := head, Kind := ScalarNode\<rparr>,
                        zeroNode\<lparr>Kind := guessKind tail 0\<rparr>])
                    [value := nd\<lparr>Content := Content nd @ [length h, length h + 1]\<rparr>], c)"
    for vis :: "'x VisitorFn" and c
    using assms recurseMap_no_match[of "(h, c)" "value" nd head tail]
    by (simp add: recurse_def)
  have "length ((h @ [zeroNode\<lparr>Value := head, Kind := ScalarNode\<rparr>,
                        zeroNode\<lparr>Kind := guessKind tail 0\<rparr>])
                    [value := nd\<lparr>Content := Content nd @ [length h, length h + 1]\<rparr>]) \<noteq> length h"
    by simp
  then have "(h @ [zeroNode\<lparr>Value := head, Kind := ScalarNode\<rparr>,
                        zeroNode\<lparr>Kind := guessKind tail 0\<rparr>])
                    [value := nd\<lparr>Content := Content nd @ [length h, length h + 1]\<rparr>] \<noteq> h"
    by metis
  then show ?thesis using v[of visitor c] v[of Get_visitor "[]"]
    by (simp add: Let_def Get_def)
qed

text \<open>On \<^verbatim>\<open>{a: 1}\<close>, \<^verbatim>\<open>Get(root, ["b"])\<close> returns a new empty scalar and leaves
  \<^verbatim>\<open>{a: 1, b: ""}\<close>.\<close>

theorem recurseMap_creates_missing_entry_witness:
  "Get 0 [''b''] doc_a =
     (Return (Some 4, None),
      [mappingOf [1, 2, 3, 4], scalarOf ''a'', scalarOf ''1'', scalarOf ''b'', scalarOf []])"
proof -
  have 1: "realValue doc_a 0 = Return 0" by code_simp
  have 2: "load doc_a 0 = Some (mappingOf [1, 2])" by code_simp
  have 3: "Kind (mappingOf [1, 2]) = MappingNode" by code_simp
  have 4: "''b'' \<noteq> ''*''" by simp
  have 5: "set (Content (mappingOf [1, 2])) \<subseteq> {..<length doc_a}"
    by (simp add: mappingOf_def doc_a_def)
  have 6: "matchingEntries doc_a (Content (mappingOf [1, 2])) ''b'' = []" by code_simp
  have 7: "Get 4 [] ((doc_a @ [zeroNode\<lparr>Value := ''b'', Kind := ScalarNode\<rparr>,
                        zeroNode\<lparr>Kind := guessKind [] 0\<rparr>])
                    [0 := (mappingOf [1, 2])\<lparr>Content := Content (mappingOf [1, 2]) @ [3, 4]\<rparr>])
      = (Return (Some 4, None),
      [mappingOf [1, 2, 3, 4], scalarOf ''a'', scalarOf ''1'', scalarOf ''b'', scalarOf []])"
    by code_simp
  have 8: "length doc_a = 3" by code_simp
  show ?thesis
    using recurseMap_creates_missing_entry[OF 1 2 3 4 5 6, of "[]" Get_visitor "[]"] 7 8
    by (simp add: Let_def)
qed

subsection \<open>The segment matcher\<close>

text \<open>
  Claim C6 says that a segment ending in \<^verbatim>\<open>*\<close> other than the bare \<^verbatim>\<open>*\<close> matches
  the keys that start with the segment less its last character, and that every
  other segment, the bare \<^verbatim>\<open>*\<close> included, matches the key equal to it only.
  \<^verbatim>\<open>matchesKey\<close> has no case for the bare \<^verbatim>\<open>*\<close>: \<^verbatim>\<open>TrimSuffix\<close> turns it into
  the empty prefix, which every key starts with. So the first rule holds for every
  segment that ends in \<^verbatim>\<open>*\<close>, and equality is the rule for the others.
\<close>

theorem matchesKey_trailing_star:
  "matchesKey key actual =
     (if key \<noteq> [] \<and> last key = CHR ''*'' then prefix (butlast key) actual else actual = key)"
proof (cases "key \<noteq> [] \<and> last key = CHR ''*''")
  case True
  then have k: "key = butlast key @ ''*''" by (metis append_butlast_last_id)
  have "HasSuffix key ''*''" unfolding HasSuffix_def
    by (subst (3) k) (use True in \<open>auto simp: Suc_le_eq\<close>)
  moreover have "take (length key - 1) key = butlast key" by (simp add: butlast_conv_take)
  moreover have "butlast key \<noteq> key" using True by (metis k append_self_conv not_Cons_self2)
  ultimately show ?thesis using True
    by (simp add: matchesKey_def TrimSuffix_def HasPrefix_prefix)
next
  case False
  have "\<not> HasSuffix key ''*''"
  proof
    assume "HasSuffix key ''*''"
    then have "length key \<ge> 1" and d: "drop (length key - 1) key = ''*''"
      by (auto simp: HasSuffix_def)
    then have "key \<noteq> []" by auto
    moreover have "last key = CHR ''*''"
      by (metis d last_drop last.simps diff_less length_greater_0_conv calculation zero_less_one)
    ultimately show False using False by simp
  qed
  then show ?thesis using False by (auto simp: matchesKey_def TrimSuffix_def)
qed

text \<open>Claim C6 as stated fails: the bare \<^verbatim>\<open>*\<close> matches the key \<^verbatim>\<open>a\<close>, which is not
  equal to it.\<close>

theorem matchesKey_bare_star_matches_other_key:
  "matchesKey ''*'' ''a'' \<and> ''a'' \<noteq> ''*''"
  by (simp add: matchesKey_def TrimSuffix_def HasSuffix_def HasPrefix_def)

subsection \<open>What Get returns\<close>

text \<open>
  Claim C7: \<^verbatim>\<open>Get\<close> runs the traversal with a callback that appends the node
  it is called on to \<^verbatim>\<open>matchingNodes\<close> and changes nothing else. When the
  traversal has ended without a panic (with or without an error, which \<^verbatim>\<open>Get\<close>
  drops) and the callback has run on no node, \<^verbatim>\<open>Get\<close> returns nil and a nil
  error; when it has run on one node, \<^verbatim>\<open>Get\<close> returns the pointer to that very
  node and allocates nothing; when it has run on more, \<^verbatim>\<open>Get\<close> returns a pointer
  to one new sequence node whose \<^verbatim>\<open>Content\<close> is the list of those pointers in
  the order of the calls, the nodes of the heap being left as they are.
\<close>

theorem Get_result:
  assumes "Visit value path Get_visitor (h, []) = (Return errorVisiting, (h', matchingNodes))"
  shows "Get_visitor m (h0, ms) = (Return None, (h0, ms @ [m])) \<and>
         Get value path h =
           (case matchingNodes of
              [] \<Rightarrow> (Return (None, None), h')
            | [m] \<Rightarrow> (Return (Some m, None), h')
            | _ \<Rightarrow> (Return (Some (length h'), None),
                    h' @ [zeroNode\<lparr>Kind := SequenceNode, Content := matchingNodes\<rparr>]))"
  using assms by (auto simp: Get_def Get_visitor_def split: list.splits)

text \<open>On \<^verbatim>\<open>{x: 1, x: 2}\<close>, \<^verbatim>\<open>Get(root, ["x"])\<close> returns a new sequence node over
  the two value nodes.\<close>

theorem Get_result_witness:
  "Get 0 [''x''] doc_dup = (Return (Some 5, None), doc_dup @ [sequenceOf [2, 4]])"
proof -
  have 1: "Visit 0 [''x''] Get_visitor (doc_dup, []) = (Return None, (doc_dup, [2, 4]))"
    by code_simp
  have 2: "length doc_dup = 5" by code_simp
  show ?thesis using Get_result[OF 1] 2 by (simp add: sequenceOf_def)
qed

subsection \<open>A sequence and a segment that is no index, or an index past the end\<close>

text \<open>
  Claim C8: when a sequence node is traversed with a head segment other than
  \<^verbatim>\<open>*\<close> and \<^verbatim>\<open>+\<close>, then if \<^verbatim>\<open>ParseInt\<close> rejects the segment the traversal
  returns that error (the spec's InvalidIndexSegment), and if the segment parses to
  an index \<open>i\<close> with \<open>i \<ge> len(Content)\<close> the traversal returns nil; in both cases
  the state is unchanged, whatever the callback is, so the callback has not run.
\<close>

theorem recurse_sequence_bad_index:
  assumes "load (fst s) value = Some nd" and "Kind nd = SequenceNode"
    and "head \<noteq> ''*''" and "head \<noteq> ''+''"
  shows "(\<forall>err. ParseInt head = Inl err \<longrightarrow>
            recurse value head tail visit s = (Return (Some err), s)) \<and>
         (\<forall>i. ParseInt head = Inr i \<and> i \<ge> int (length (Content nd)) \<longrightarrow>
            recurse value head tail visit s = (Return None, s))"
  using assms by (simp add: recurse_def recurseArray_def)

text \<open>On \<^verbatim>\<open>[10, 20, 30]\<close>: the segment \<^verbatim>\<open>1x\<close> is an error, the segment \<^verbatim>\<open>3\<close> is
  past the end.\<close>

theorem recurse_sequence_bad_index_witness:
  "recurse 0 ''1x'' [] Get_visitor (doc_seq, []) =
     (Return (Some (NumError ''1x'' ErrSyntax)), (doc_seq, [])) \<and>
   recurse 0 ''3'' [] Get_visitor (doc_seq, []) = (Return None, (doc_seq, []))"
proof -
  have 1: "load (fst (doc_seq, [])) 0 = Some (sequenceOf [1, 2, 3])" by code_simp
  have 2: "Kind (sequenceOf [1, 2, 3]) = SequenceNode" by code_simp
  have 3: "ParseInt ''1x'' = Inl (NumError ''1x'' ErrSyntax)" by code_simp
  have 4: "ParseInt ''3'' = Inr 3" by code_simp
  have 5: "(3::int) \<ge> int (length (Content (sequenceOf [1, 2, 3])))" by code_simp
  have a: "recurse 0 ''1x'' [] Get_visitor (doc_seq, []) =
     (Return (Some (NumError ''1x'' ErrSyntax)), (doc_seq, []))"
    using recurse_sequence_bad_index[OF 1 2, of "''1x''" "[]" Get_visitor] 3 by simp
  have b: "recurse 0 ''3'' [] Get_visitor (doc_seq, []) = (Return None, (doc_seq, []))"
    using recurse_sequence_bad_index[OF 1 2, of "''3''" "[]" Get_visitor] 4 5 by simp
  show ?thesis using a b by simp
qed

subsection \<open>Update, then Get\<close>

text \<open>
  Claim C9 says that for every root, every concretely addressed path and every
  replacement \<open>v\<close>, \<^verbatim>\<open>Update\<close> followed by \<^verbatim>\<open>Get\<close> on the same path returns
  a node equal in value to \<open>v\<close>. The traversal does not reach a node on every such
  path: \<^verbatim>\<open>recurseArray\<close> returns nil without calling the visitor when the
  index is past the end of the sequence. On the sequence \<^verbatim>\<open>[10, 20, 30]\<close> with the
  path \<^verbatim>\<open>["5"]\<close>, \<^verbatim>\<open>Update\<close> changes nothing and \<^verbatim>\<open>Get\<close> returns nil.

  What holds: when the nodes form a forest, the path addresses one node from the
  root value in the sense of \<open>addressable\<close> (keys other than \<^verbatim>\<open>*\<close> matched by
  at most one entry of a mapping of even length, indices from 0 within range of a
  sequence; a key that is missing, or a value that has not the kind
  \<^verbatim>\<open>guessKind\<close> asks for, only where the rest of the path consists of keys that
  are neither integers nor \<^verbatim>\<open>*\<close> nor \<^verbatim>\<open>+\<close>; the node at the end not a document
  node), and the kind of \<open>v\<close> is neither 0 nor that of a document,
  \<^verbatim>\<open>Update\<close> returns nil and \<^verbatim>\<open>Get\<close> on the heap it leaves returns a pointer
  to a node that holds the eight fields \<^verbatim>\<open>Update\<close> copies from \<open>v\<close>, and
  changes nothing. Nothing is stated for other paths.
\<close>

theorem Update_then_Get:
  assumes f: "isForest h" and r: "realValue h root = Return rv" and ad: "addressable h rv path"
    and v: "Kind v \<noteq> 0" "Kind v \<noteq> DocumentNode"
  shows "\<exists>m h'. Update root path v h = (Return None, h') \<and>
                Get root path h' = (Return (Some m, None), h') \<and>
                m < length h' \<and> updatedFrom (h' ! m) v"
proof -
  from updateReaches_ex[OF v f ad] obtain m h' where u: "updateReaches v h rv path m h'" by blast
  note rvn = addressable_node[OF ad]
  have rr: "realValue h rv = Return rv" using rvn by (rule realValue_plain)
  have U: "Visit rv path (Update_visitor v) (h, ()) = (Return None, (h', ()))"
    and G: "Visit rv path Get_visitor (h', []) = (Return None, (h', [] @ [m]))"
    and len: "length h \<le> length h'"
    and fr: "\<forall>b<length h. b \<notin> touched h rv \<longrightarrow> h' ! b = h ! b"
    and K: "Kind (h' ! rv) = (if path = [] then Kind v else Kind (h ! rv))"
    and m: "m < length h'" "updatedFrom (h' ! m) v"
    using u by (simp_all add: updateReaches_def)
  have rr': "realValue h' rv = Return rv"
    using rvn len K v(2) by (intro realValue_plain) (auto split: if_splits)
  have r': "realValue h' root = Return rv"
  proof (cases "root = rv")
    case True
    then show ?thesis using rr' by simp
  next
    case False
    then have d: "root < length h" "Kind (h ! root) = DocumentNode" "Content (h ! root) \<noteq> []"
      "rv = Content (h ! root) ! 0"
      using r by (auto simp: realValue_def load_def split: if_splits)
    then have "rv \<in> set (Content (h ! root))" by (metis length_greater_0_conv nth_mem)
    then have lt: "root < rv" using isForest_child[OF f d(1)] by simp
    have "root \<notin> touched h rv"
    proof
      assume t: "root \<in> touched h rv"
      from touched_E[OF t False] obtain p where p: "rv \<le> p" "p < length h" "root \<in> set (Content (h ! p))"
        by blast
      then have "p < root" using isForest_child[OF f p(2) p(3)] by simp
      then show False using lt p(1) by simp
    qed
    then have "h' ! root = h ! root" using fr d(1) by simp
    then show ?thesis using r d(1) len by (simp add: realValue_def load_def)
  qed
  have 1: "Update root path v h = (Return None, h')"
    using Visit_root[of "(h, ())" root rv path "Update_visitor v"] r rr U by (simp add: Update_def)
  have 2: "Get root path h' = (Return (Some m, None), h')"
    using Visit_root[of "(h', [])" root rv path Get_visitor] r' rr' G by (simp add: Get_def)
  show ?thesis using 1 2 m by blast
qed

theorem Update_then_Get_witness:
  "isForest doc_ab \<and> realValue doc_ab 0 = Return 0 \<and> addressable doc_ab 0 [''a'', ''c''] \<and>
   (\<exists>m h'. Update 0 [''a'', ''c''] (scalarOf ''5'') doc_ab = (Return None, h') \<and>
           Get 0 [''a'', ''c''] h' = (Return (Some m, None), h') \<and>
           m < length h' \<and> updatedFrom (h' ! m) (scalarOf ''5''))"
proof -
  have 1: "isForest doc_ab" by code_simp
  have 2: "realValue doc_ab 0 = Return 0" by code_simp
  have 3: "addressable doc_ab 0 [''a'', ''c'']" by code_simp
  have 4: "Kind (scalarOf ''5'') \<noteq> 0" "Kind (scalarOf ''5'') \<noteq> DocumentNode" by code_simp+
  show ?thesis by (intro conjI 1 2 3 Update_then_Get[OF 1 2 3 4])
qed

text \<open>Claim C9 as stated fails: on \<^verbatim>\<open>[10, 20, 30]\<close> the path \<^verbatim>\<open>["5"]\<close> is past the
  end; \<^verbatim>\<open>Update\<close> changes nothing and \<^verbatim>\<open>Get\<close> returns nil.\<close>

theorem Update_past_the_end_then_Get_nil:
  "Update 0 [''5''] (scalarOf ''99'') doc_seq = (Return None, doc_seq) \<and>
   Get 0 [''5''] doc_seq = (Return (None, None), doc_seq)"
  by code_simp

subsection \<open>A negative index\<close>

text \<open>
  Claim C10 says that the test \<open>i \<ge> len(Content)\<close> keeps every access to the
  \<^verbatim>\<open>Content\<close> of a sequence in range, negative indices included. A negative
  index passes the test. On \<^verbatim>\<open>[10, 20, 30]\<close> the segment \<^verbatim>\<open>-1\<close> parses to
  \<open>-1\<close>; \<^verbatim>\<open>Get\<close> then panics in \<^verbatim>\<open>value.Content[index]\<close> and
  \<^verbatim>\<open>Delete\<close> in \<^verbatim>\<open>original[:index]\<close>.
\<close>

theorem negative_index_panics:
  "ParseInt ''-1'' = Inr (- 1) \<and>
   Get 0 [''-1''] doc_seq = (Panics IndexOutOfRange, doc_seq) \<and>
   Delete 0 [''-1''] doc_seq = (Panics SliceBoundsOutOfRange, doc_seq)"
  by code_simp

subsection \<open>Further properties\<close>

text \<open>The bare \<^verbatim>\<open>*\<close>, when it reaches \<^verbatim>\<open>matchesKey\<close>, matches every key.\<close>

theorem matchesKey_bare_star: "matchesKey ''*'' actual"
  by (simp add: matchesKey_def TrimSuffix_def HasSuffix_def HasPrefix_def)

text \<open>The segment \<^verbatim>\<open>ab*\<close> matches the keys \<^verbatim>\<open>ab\<close>, \<^verbatim>\<open>abc\<close> and \<^verbatim>\<open>abxyz\<close>, and not
  the key \<^verbatim>\<open>a\<close>.\<close>

theorem matchesKey_prefix_examples:
  "matchesKey ''ab*'' ''ab'' \<and> matchesKey ''ab*'' ''abc'' \<and> matchesKey ''ab*'' ''abxyz'' \<and>
   \<not> matchesKey ''ab*'' ''a''"
  by code_simp

text \<open>On \<^verbatim>\<open>[1, 2]\<close>, \<^verbatim>\<open>Update(root, ["+"], 99)\<close> appends a node and leaves
  \<^verbatim>\<open>[1, 2, 99]\<close>.\<close>

theorem Update_append_marker:
  "Update 0 [''+''] (scalarOf ''99'') doc_12 =
     (Return None, [sequenceOf [1, 2, 3], scalarOf ''1'', scalarOf ''2'', scalarOf ''99''])"
  by code_simp

text \<open>On \<^verbatim>\<open>[10, 20, 30]\<close>, \<^verbatim>\<open>Delete(root, ["1"])\<close> leaves \<^verbatim>\<open>[10, 30]\<close>, and
  \<^verbatim>\<open>Delete(root, ["5"])\<close> then changes nothing.\<close>

theorem Delete_sequence_scenario:
  "Delete 0 [''1''] doc_seq = (Return None, withContent doc_seq 0 [1, 3]) \<and>
   Delete 0 [''5''] (withContent doc_seq 0 [1, 3]) = (Return None, withContent doc_seq 0 [1, 3])"
  by code_simp

text \<open>
  Coercion discards what was stored: on \<^verbatim>\<open>{a: {b: 1}}\<close> the query
  \<^verbatim>\<open>Get(root, ["a", "0"])\<close> asks for a sequence under \<^verbatim>\<open>a\<close>; it puts a new empty
  sequence in the place of the mapping \<^verbatim>\<open>{b: 1}\<close> and, the index being past the end
  of the new sequence, returns nil.
\<close>

theorem Get_coerces_mapping_to_sequence:
  "Get 0 [''a'', ''0''] doc_ab =
     (Return (None, None),
      [mappingOf [1, 5], scalarOf ''a'', mappingOf [3, 4], scalarOf ''b'', scalarOf ''1'',
       sequenceOf []])"
  by code_simp

text \<open>
  A mapping below the root that is addressed with an integer: on
  \<^verbatim>\<open>{ports: {"80": http, "443": https}}\<close> the path \<^verbatim>\<open>["ports", "80"]\<close> does not lead
  to a container in the sense of \<open>container\<close>. \<^verbatim>\<open>Delete\<close> removes the entry
  \<^verbatim>\<open>"80"\<close>; \<^verbatim>\<open>Get\<close> then puts a new empty sequence in the place of the mapping
  under \<^verbatim>\<open>ports\<close> and returns nil.
\<close>

theorem Delete_then_Get_integer_key:
  "container doc_ports 0 [''ports''] ''80'' = None \<and>
   Delete 0 [''ports'', ''80''] doc_ports = (Return None, withContent doc_ports 2 [5, 6]) \<and>
   Get 0 [''ports'', ''80''] (withContent doc_ports 2 [5, 6]) =
     (Return (None, None), withContent (withContent doc_ports 2 [5, 6]) 0 [1, 7] @ [sequenceOf []])"
  by code_simp

text \<open>With the final segment \<^verbatim>\<open>*\<close>, \<^verbatim>\<open>Delete\<close> empties the mapping \<^verbatim>\<open>{a: 1}\<close>
  and \<^verbatim>\<open>Get\<close> then finds nothing.\<close>

theorem Delete_then_Get_splat:
  "Delete 0 [''*''] doc_a = (Return None, withContent doc_a 0 []) \<and>
   Get 0 [''*''] (withContent doc_a 0 []) = (Return (None, None), withContent doc_a 0 [])"
  by code_simp

text \<open>
  A path that is not addressable and on which \<^verbatim>\<open>Update\<close> changes the tree all
  the same: on \<^verbatim>\<open>{a: 1}\<close> with the path \<^verbatim>\<open>["a", "5"]\<close>, \<^verbatim>\<open>Update\<close> puts a new
  empty sequence in the place of the scalar \<^verbatim>\<open>1\<close>, does not reach the index 5 in
  it, and \<^verbatim>\<open>Get\<close> returns nil.
\<close>

theorem Update_coerces_scalar_to_sequence:
  "\<not> addressable doc_a 0 [''a'', ''5''] \<and>
   Update 0 [''a'', ''5''] (scalarOf ''9'') doc_a =
     (Return None, withContent doc_a 0 [1, 3] @ [sequenceOf []]) \<and>
   Get 0 [''a'', ''5''] (withContent doc_a 0 [1, 3] @ [sequenceOf []]) =
     (Return (None, None), withContent doc_a 0 [1, 3] @ [sequenceOf []])"
  by code_simp

text \<open>A path does not go on through a node that is neither a mapping nor a sequence:
  \<^verbatim>\<open>recurse\<close> returns nil and the visitor is not called.\<close>

theorem recurse_leaf:
  assumes "load (fst s) value = Some nd" and "Kind nd \<noteq> MappingNode" and "Kind nd \<noteq> SequenceNode"
  shows "recurse value head tail visit s = (Return None, s)"
  using assms by (simp add: recurse_def)

theorem recurse_leaf_witness:
  "recurse 1 ''b'' [] Get_visitor (doc_a, []) = (Return None, (doc_a, []))"
proof -
  have 1: "load (fst (doc_a, [])) 1 = Some (scalarOf ''a'')" by code_simp
  have 2: "Kind (scalarOf ''a'') \<noteq> MappingNode" "Kind (scalarOf ''a'') \<noteq> SequenceNode" by code_simp+
  show ?thesis by (rule recurse_leaf[OF 1 2])
qed

end
